theory Spec2Isabelle
  imports Complex_Main "HOL-Library.Sublist"
begin

section \<open>Python string primitives\<close>

text \<open>
  A Python \<open>str\<close> is a sequence of code points. The model takes the code points below 256
  (the Latin-1 block of Unicode): a \<^typ>\<open>char\<close> stands for the code point
  \<^term>\<open>of_char c :: int\<close>, and \<^typ>\<open>string\<close> for a \<open>str\<close> of such code points.
  The character tables below (\<open>str.lower\<close>, \<open>str.isspace\<close>, the regular-expression
  classes) are the ones CPython uses on that range.
\<close>

definition in_range :: "int \<Rightarrow> int \<Rightarrow> char \<Rightarrow> bool" where
  "in_range lo hi c = (lo \<le> of_char c \<and> (of_char c :: int) \<le> hi)"

definition lower_char :: "char \<Rightarrow> char" where
  \<comment> \<open>\<open>A-Z\<close>, and the Latin-1 capitals \<open>0xC0-0xDE\<close> but the multiplication sign \<open>0xD7\<close>.\<close>
  "lower_char c =
     (if in_range 65 90 c \<or> (in_range 192 222 c \<and> of_char c \<noteq> (215::int))
      then char_of (of_char c + (32::int)) else c)"

definition py_lower :: "string \<Rightarrow> string" where
  "py_lower s = map lower_char s"

definition upper_char :: "char \<Rightarrow> char" where
  \<comment> \<open>\<open>str.upper\<close> on ASCII; the pipelines apply it to the four ASCII type tags only.\<close>
  "upper_char c = (if in_range 97 122 c then char_of (of_char c - (32::int)) else c)"

definition py_upper :: "string \<Rightarrow> string" where
  "py_upper s = map upper_char s"

definition py_isspace :: "char \<Rightarrow> bool" where
  \<comment> \<open>\<open>str.isspace\<close>, which is also the class \<open>\s\<close>: TAB..CR, FS..US, space, NEL, NBSP.\<close>
  "py_isspace c =
     (in_range 9 13 c \<or> in_range 28 32 c \<or> of_char c = (133::int) \<or> of_char c = (160::int))"

fun split_from :: "string \<Rightarrow> string \<Rightarrow> string list" where
  "split_from w [] = (if w = [] then [] else [w])"
| "split_from w (c # cs) =
     (if py_isspace c then (if w = [] then split_from [] cs else w # split_from [] cs)
      else split_from (w @ [c]) cs)"

definition py_split :: "string \<Rightarrow> string list" where
  \<comment> \<open>\<open>s.split()\<close>: the maximal runs of non-whitespace characters, left to right.\<close>
  "py_split s = split_from [] s"

definition startswith :: "string \<Rightarrow> string \<Rightarrow> bool" where
  "startswith s sub = (take (length sub) s = sub)"

fun py_in :: "string \<Rightarrow> string \<Rightarrow> bool" where
  \<comment> \<open>\<open>sub in s\<close>: \<open>sub\<close> occurs in \<open>s\<close> as a contiguous substring.\<close>
  "py_in sub [] = (sub = [])"
| "py_in sub (c # cs) = (startswith (c # cs) sub \<or> py_in sub cs)"

function count_from :: "string \<Rightarrow> string \<Rightarrow> int" where
  "count_from sub s =
     (if sub = [] \<or> length s < length sub then 0
      else if startswith s sub then 1 + count_from sub (drop (length sub) s)
      else count_from sub (tl s))"
  by pat_completeness auto
termination
  by (relation "measure (\<lambda>(sub, s). length s)") (auto simp: not_less neq_Nil_conv)

declare count_from.simps [simp del]

definition py_count :: "string \<Rightarrow> string \<Rightarrow> int" where
  \<comment> \<open>\<open>s.count(sub)\<close>: the occurrences of \<open>sub\<close> found scanning left to right, each search
      resuming after the previous occurrence (so they do not overlap); the empty string is
      counted once at every position.\<close>
  "py_count s sub = (if sub = [] then int (length s) + 1 else count_from sub s)"

section \<open>Documents and the basic pipeline (\<open>SimpleRAGPipeline\<close>)\<close>

text \<open>
  A document is a dictionary with the keys \<open>id\<close>, \<open>title\<close> and \<open>content\<close>; the key \<open>id\<close>
  is the field \<open>doc_id\<close> here. The basic pipeline numbers its documents, the compliance
  pipeline names them, hence the type parameter.
\<close>

record 'i document =
  doc_id :: 'i
  title :: string
  content :: string

text \<open>
  A search result is the dictionary \<open>{**doc, "score": score}\<close>: the document's own
  entries and its score.
\<close>

record 'd scored =
  doc :: 'd
  score :: int


text \<open>
  The file system as \<open>_load_documents\<close> sees it. \<open>PathMissing\<close>: \<open>path.exists()\<close> is false.
  \<open>PathExists files\<close>: the path exists and \<open>path.glob("*.txt")\<close> yields \<open>files\<close> in this
  order, each entry the file's stem and its text, or \<open>None\<close> when \<open>open\<close> or \<open>read\<close> raises.
  \<open>str.title\<close> maps some Latin-1 letters outside Latin-1; it is the parameter \<open>py_title\<close>.
\<close>

datatype fs_path = PathMissing | PathExists "(string \<times> string option) list"

datatype py_error = OSError

definition replace_underscores :: "string \<Rightarrow> string" where
  \<comment> \<open>\<open>stem.replace("_", " ")\<close>\<close>
  "replace_underscores s = map (\<lambda>c. if c = CHR ''_'' then CHR '' '' else c) s"

fun simple_read_documents ::
  "(string \<Rightarrow> string) \<Rightarrow> int \<Rightarrow> (string \<times> string option) list \<Rightarrow> py_error + int document list"
where
  \<comment> \<open>the loop \<open>for i, doc_file in enumerate(path.glob("*.txt"), start=1)\<close>, from \<open>i\<close> on\<close>
  "simple_read_documents py_title i [] = Inr []"
| "simple_read_documents py_title i ((stem, None) # files) = Inl OSError"
| "simple_read_documents py_title i ((stem, Some text) # files) =
     (case simple_read_documents py_title (i + 1) files of
        Inl e \<Rightarrow> Inl e
      | Inr documents \<Rightarrow>
          Inr (\<lparr>doc_id = i, title = py_title (replace_underscores stem), content = text\<rparr>
               # documents))"


text \<open>
  The score of one document, the inner loop of \<open>search\<close>: over the whitespace-separated
  words of the lower-cased query, a word longer than 3 characters adds the number of its
  occurrences in the lower-cased content.
\<close>

definition keyword_score :: "string \<Rightarrow> string \<Rightarrow> int" where
  "keyword_score query_lower content_lower =
     foldl (\<lambda>score word. if length word > 3 then score + py_count content_lower word else score)
       0 (py_split query_lower)"

definition py_slice_to :: "'a list \<Rightarrow> int \<Rightarrow> 'a list" where
  \<comment> \<open>\<open>xs[:k]\<close>: a negative \<open>k\<close> counts from the end of the list.\<close>
  "py_slice_to xs k = (if 0 \<le> k then take (nat k) xs else take (length xs - nat (- k)) xs)"

definition sort_reverse :: "('a \<Rightarrow> 'k::linordered_idom) \<Rightarrow> 'a list \<Rightarrow> 'a list" where
  \<comment> \<open>\<open>xs.sort(key=key, reverse=True)\<close>: descending by key; the sort is stable, and
      \<open>reverse=True\<close> keeps elements with equal keys in their original order.\<close>
  "sort_reverse key xs = sort_key (\<lambda>x. - key x) xs"

definition simple_search :: "int document list \<Rightarrow> string \<Rightarrow> int \<Rightarrow> int document scored list" where
  "simple_search documents query top_k =
     (let query_lower = py_lower query;
          scored_docs =
            foldl (\<lambda>scored_docs d.
                let sc = keyword_score query_lower (py_lower (content d))
                in if sc > 0 then scored_docs @ [\<lparr>doc = d, score = sc\<rparr>] else scored_docs)
              [] documents
      in py_slice_to (sort_reverse score scored_docs) top_k)"

section \<open>Regular expressions and the PII patterns\<close>

text \<open>
  The four patterns are sequences of two kinds of items: the assertion \<open>\b\<close>, and a
  character class with a greedy repetition (\<open>{m}\<close>, \<open>{m,}\<close>, \<open>+\<close>, \<open>?\<close>; a single
  character or class is \<open>{1}\<close>). \<open>Rep cls lo hi\<close> is the class \<open>cls\<close> repeated at
  least \<open>lo\<close> and at most \<open>hi\<close> times (\<open>None\<close>: unbounded).
\<close>

datatype item = Bnd | Rep "char \<Rightarrow> bool" nat "nat option"

definition is_digit :: "char \<Rightarrow> bool" where
  \<comment> \<open>\<open>\d\<close>: the decimal digits; below 256 these are \<open>0-9\<close>.\<close>
  "is_digit c = in_range 48 57 c"

definition is_word :: "char \<Rightarrow> bool" where
  \<comment> \<open>\<open>\w\<close>: alphanumeric (\<open>str.isalnum\<close>) or the underscore.\<close>
  "is_word c =
     (in_range 48 57 c \<or> in_range 65 90 c \<or> of_char c = (95::int) \<or> in_range 97 122 c \<or>
      of_char c = (170::int) \<or> in_range 178 179 c \<or> of_char c = (181::int) \<or>
      in_range 185 186 c \<or> in_range 188 190 c \<or> in_range 192 214 c \<or>
      in_range 216 246 c \<or> in_range 248 255 c)"

definition word_opt :: "char option \<Rightarrow> bool" where
  "word_opt p = (case p of None \<Rightarrow> False | Some c \<Rightarrow> is_word c)"

definition first_char :: "string \<Rightarrow> char option" where
  "first_char s = (case s of [] \<Rightarrow> None | c # _ \<Rightarrow> Some c)"

definition at_boundary :: "char option \<Rightarrow> string \<Rightarrow> bool" where
  \<comment> \<open>\<open>\b\<close> between the character \<open>prev\<close> before the position (\<open>None\<close> at the start of
      the string) and the rest \<open>s\<close> of the string: exactly one side is a word character.\<close>
  "at_boundary prev s = (word_opt prev \<noteq> word_opt (first_char s))"

definition ctx_after :: "char option \<Rightarrow> string \<Rightarrow> char option" where
  \<comment> \<open>the character before the position reached after consuming \<open>w\<close>\<close>
  "ctx_after prev w = (if w = [] then prev else Some (last w))"

definition max_count :: "(char \<Rightarrow> bool) \<Rightarrow> nat option \<Rightarrow> string \<Rightarrow> nat" where
  "max_count cls hi s =
     (let k = length (takeWhile cls s) in case hi of None \<Rightarrow> k | Some h \<Rightarrow> min h k)"

fun first_some :: "('a \<Rightarrow> 'b option) \<Rightarrow> 'a list \<Rightarrow> 'b option" where
  "first_some f [] = None"
| "first_some f (x # xs) = (case f x of None \<Rightarrow> first_some f xs | Some y \<Rightarrow> Some y)"

text \<open>
  The backtracking matcher: \<open>rmatch r prev s\<close> is the length of the match of \<open>r\<close> at the start
  of \<open>s\<close> that the engine finds first, or \<open>None\<close>. A repetition first takes as many characters
  as it can and gives them back one at a time while the rest of the pattern fails.
\<close>

fun rmatch :: "item list \<Rightarrow> char option \<Rightarrow> string \<Rightarrow> nat option" where
  "rmatch [] prev s = Some 0"
| "rmatch (Bnd # r) prev s = (if at_boundary prev s then rmatch r prev s else None)"
| "rmatch (Rep cls lo hi # r) prev s =
     first_some
       (\<lambda>j. map_option (\<lambda>n. j + n) (rmatch r (ctx_after prev (take j s)) (drop j s)))
       (rev [lo ..< Suc (max_count cls hi s)])"

text \<open>
  \<open>re.sub(pattern, repl, s)\<close> and \<open>re.finditer(pattern, s)\<close> scan \<open>s\<close> from the left: at each
  position the pattern is tried; after a match the scan resumes behind it. The four
  patterns have no match of length 0 (lemma \<open>pii_match_positive\<close>), and none is modelled.
\<close>

fun py_sub :: "item list \<Rightarrow> string \<Rightarrow> char option \<Rightarrow> string \<Rightarrow> string" where
  "py_sub pat repl prev [] = []"
| "py_sub pat repl prev (c # cs) =
     (case rmatch pat prev (c # cs) of
        Some (Suc n) \<Rightarrow> repl @ py_sub pat repl (Some (last (c # take n cs))) (drop n cs)
      | _ \<Rightarrow> c # py_sub pat repl (Some c) cs)"

fun finditer :: "item list \<Rightarrow> nat \<Rightarrow> char option \<Rightarrow> string \<Rightarrow> (string \<times> nat \<times> nat) list" where
  "finditer pat pos prev [] = []"
| "finditer pat pos prev (c # cs) =
     (case rmatch pat prev (c # cs) of
        Some (Suc n) \<Rightarrow>
          (c # take n cs, (pos, pos + Suc n))
          # finditer pat (pos + Suc n) (Some (last (c # take n cs))) (drop n cs)
      | _ \<Rightarrow> finditer pat (pos + 1) (Some c) cs)"

definition lit :: "char \<Rightarrow> item" where
  "lit x = Rep (\<lambda>c. c = x) 1 (Some 1)"

definition email_local :: "char \<Rightarrow> bool" where
  \<comment> \<open>\<open>[A-Za-z0-9._%+-]\<close>\<close>
  "email_local c =
     (in_range 65 90 c \<or> in_range 97 122 c \<or> in_range 48 57 c \<or> c \<in> set ''._%+-'')"

definition email_domain :: "char \<Rightarrow> bool" where
  \<comment> \<open>\<open>[A-Za-z0-9.-]\<close>\<close>
  "email_domain c = (in_range 65 90 c \<or> in_range 97 122 c \<or> in_range 48 57 c \<or> c \<in> set ''.-'')"

definition email_tld :: "char \<Rightarrow> bool" where
  \<comment> \<open>\<open>[A-Z|a-z]\<close>: the vertical bar is a member of the class.\<close>
  "email_tld c = (in_range 65 90 c \<or> c = CHR ''|'' \<or> in_range 97 122 c)"

definition email_pattern :: "item list" where
  \<comment> \<open>\<open>\b[A-Za-z0-9._%+-]+@[A-Za-z0-9.-]+\.[A-Z|a-z]{2,}\b\<close>\<close>
  "email_pattern =
     [Bnd, Rep email_local 1 None, lit CHR ''@'', Rep email_domain 1 None, lit CHR ''.'',
      Rep email_tld 2 None, Bnd]"

definition ssn_pattern :: "item list" where
  \<comment> \<open>\<open>\b\d{3}-\d{2}-\d{4}\b\<close>\<close>
  "ssn_pattern =
     [Bnd, Rep is_digit 3 (Some 3), lit CHR ''-'', Rep is_digit 2 (Some 2), lit CHR ''-'',
      Rep is_digit 4 (Some 4), Bnd]"

definition phone_sep :: "char \<Rightarrow> bool" where
  \<comment> \<open>\<open>[-.]\<close>\<close>
  "phone_sep c = (c \<in> set ''-.'')"

definition phone_pattern :: "item list" where
  \<comment> \<open>\<open>\b\d{3}[-.]?\d{3}[-.]?\d{4}\b\<close>\<close>
  "phone_pattern =
     [Bnd, Rep is_digit 3 (Some 3), Rep phone_sep 0 (Some 1), Rep is_digit 3 (Some 3),
      Rep phone_sep 0 (Some 1), Rep is_digit 4 (Some 4), Bnd]"

definition card_sep :: "char \<Rightarrow> bool" where
  \<comment> \<open>\<open>[-\s]\<close>\<close>
  "card_sep c = (c = CHR ''-'' \<or> py_isspace c)"

definition credit_card_pattern :: "item list" where
  \<comment> \<open>\<open>\b\d{4}[-\s]?\d{4}[-\s]?\d{4}[-\s]?\d{4}\b\<close>\<close>
  "credit_card_pattern =
     [Bnd, Rep is_digit 4 (Some 4), Rep card_sep 0 (Some 1), Rep is_digit 4 (Some 4),
      Rep card_sep 0 (Some 1), Rep is_digit 4 (Some 4), Rep card_sep 0 (Some 1),
      Rep is_digit 4 (Some 4), Bnd]"

definition PII_PATTERNS :: "(string \<times> item list) list" where
  \<comment> \<open>the dictionary, in its insertion order, which is the order \<open>items()\<close> yields\<close>
  "PII_PATTERNS =
     [(''email'', email_pattern), (''ssn'', ssn_pattern), (''phone'', phone_pattern),
      (''credit_card'', credit_card_pattern)]"

record pii_match =
  pii_type :: string
  pii_value :: string
  pii_position :: "nat \<times> nat"

definition detect_pii :: "string \<Rightarrow> pii_match list" where
  "detect_pii txt =
     concat (map (\<lambda>(ptype, pattern).
         map (\<lambda>(v, span). \<lparr>pii_type = ptype, pii_value = v, pii_position = span\<rparr>)
           (finditer pattern 0 None txt))
       PII_PATTERNS)"

definition placeholder :: "string \<Rightarrow> string" where
  \<comment> \<open>\<open>f'[REDACTED-{pii_type.upper()}]'\<close>\<close>
  "placeholder ptype = ''[REDACTED-'' @ py_upper ptype @ '']''"

definition redact_pii :: "string \<Rightarrow> string" where
  "redact_pii txt =
     foldl (\<lambda>redacted_text (ptype, pattern). py_sub pattern (placeholder ptype) None redacted_text)
       txt PII_PATTERNS"

section \<open>The compliance pipeline (\<open>ComplianceRAGPipeline\<close>)\<close>

record compliance_document = "string document" +
  classification :: string
  category :: string
  requires_authorization :: bool

definition create_sample_documents :: "compliance_document list" where
  "create_sample_documents =
    [\<lparr>doc_id = ''HIPAA-001'',
      title = ''Patient Data Retention Policy'',
      content =
        ''All patient records must be retained for a minimum of 7 years per HIPAA regulations. '' @
        ''Medical records for minors must be kept until the patient reaches age 21. '' @
        ''Electronic health records must be encrypted at rest and in transit using AES-256. '' @
        ''Access to patient data requires multi-factor authentication and is logged.'',
      classification = ''CONFIDENTIAL'',
      category = ''healthcare_compliance'',
      requires_authorization = True\<rparr>,
     \<lparr>doc_id = ''GDPR-002'',
      title = ''Data Subject Rights'',
      content =
        ''Under GDPR, individuals have the right to access their personal data, request corrections, '' @
        ''and request deletion (right to be forgotten). Organizations must respond to data subject '' @
        ''requests within 30 days. Personal data must not be transferred outside the EU without '' @
        ''adequate safeguards. All data processing activities must have a legal basis.'',
      classification = ''CONFIDENTIAL'',
      category = ''privacy_compliance'',
      requires_authorization = True\<rparr>,
     \<lparr>doc_id = ''SOX-003'',
      title = ''Financial Controls'',
      content =
        ''Sarbanes-Oxley Act requires public companies to maintain accurate financial records. '' @
        ''All financial transactions must have dual approval and complete audit trails. '' @
        ''Internal controls must be documented and tested annually. Executive certification '' @
        ''of financial statements is required. Retention period for audit materials is 7 years.'',
      classification = ''CONFIDENTIAL'',
      category = ''financial_compliance'',
      requires_authorization = True\<rparr>,
     \<lparr>doc_id = ''FDA-004'',
      title = ''Adverse Event Reporting'',
      content =
        ''FDA requires reporting of serious adverse events within specific timeframes: '' @
        ''fatal or life-threatening events within 7 days, other serious events within 15 days. '' @
        ''All adverse event records must be maintained for the lifetime of the drug plus 10 years. '' @
        ''Safety data must comply with 21 CFR Part 312 and be submitted electronically via FDA ESG.'',
      classification = ''CONFIDENTIAL'',
      category = ''pharma_compliance'',
      requires_authorization = True\<rparr>,
     \<lparr>doc_id = ''PCI-005'',
      title = ''Payment Card Data Security'',
      content =
        ''PCI DSS requires encryption of cardholder data during transmission over public networks. '' @
        ''Card data must not be stored after authorization unless encrypted. Access to cardholder '' @
        ''data must be restricted on a need-to-know basis. Regular penetration testing and '' @
        ''vulnerability scans are mandatory. Incident response plans must be tested annually.'',
      classification = ''RESTRICTED'',
      category = ''payment_compliance'',
      requires_authorization = True\<rparr>]"

definition any_in :: "string list \<Rightarrow> string \<Rightarrow> bool" where
  \<comment> \<open>\<open>any(word in content_lower for word in words)\<close>\<close>
  "any_in words content_lower = list_ex (\<lambda>word. py_in word content_lower) words"

definition classify_document :: "string \<Rightarrow> string" where
  "classify_document content' =
     (let content_lower = py_lower content' in
      if any_in [''confidential'', ''restricted'', ''secret'', ''patient'', ''ssn''] content_lower
      then ''CONFIDENTIAL''
      else if any_in [''internal'', ''proprietary''] content_lower
      then ''INTERNAL''
      else ''PUBLIC'')"

definition digit_char :: "nat \<Rightarrow> char" where
  "digit_char d = char_of (48 + d)"

fun str_nat :: "nat \<Rightarrow> string" where
  \<comment> \<open>the decimal digits of a natural number, as an f-string writes it\<close>
  "str_nat n = (if n < 10 then [digit_char n] else str_nat (n div 10) @ [digit_char (n mod 10)])"

declare str_nat.simps [simp del]

definition format_03d :: "nat \<Rightarrow> string" where
  \<comment> \<open>\<open>f"{i:03d}"\<close>: padded with zeros on the left to three digits\<close>
  "format_03d i = replicate (3 - length (str_nat i)) CHR ''0'' @ str_nat i"

fun read_documents ::
  "(string \<Rightarrow> string) \<Rightarrow> nat \<Rightarrow> (string \<times> string option) list \<Rightarrow> py_error + compliance_document list"
where
  \<comment> \<open>the loop \<open>for i, doc_file in enumerate(path.glob("*.txt"), start=1)\<close>, from \<open>i\<close> on\<close>
  "read_documents py_title i [] = Inr []"
| "read_documents py_title i ((stem, None) # files) = Inl OSError"
| "read_documents py_title i ((stem, Some text) # files) =
     (case read_documents py_title (i + 1) files of
        Inl e \<Rightarrow> Inl e
      | Inr documents \<Rightarrow>
          (let cl = classify_document text in
           Inr (\<lparr>doc_id = ''DOC-'' @ format_03d i,
                 title = py_title (replace_underscores stem),
                 content = text,
                 classification = cl,
                 category = ''user_document'',
                 requires_authorization = (cl \<in> set [''CONFIDENTIAL'', ''RESTRICTED''])\<rparr>
                # documents)))"

definition load_documents ::
  "(string \<Rightarrow> string) \<Rightarrow> fs_path \<Rightarrow> py_error + compliance_document list" where
  "load_documents py_title path =
     (case path of
        PathMissing \<Rightarrow> Inr create_sample_documents
      | PathExists files \<Rightarrow>
          (case read_documents py_title 1 files of
             Inl e \<Rightarrow> Inl e
           | Inr documents \<Rightarrow>
               Inr (if documents \<noteq> [] then documents else create_sample_documents)))"

subsection \<open>The pipeline object and its audit log\<close>

text \<open>
  The values a metadata dictionary holds, and an audit entry (the key \<open>user_id\<close> of an
  entry is the field \<open>log_user_id\<close>). A metadata dictionary is the list of its items.
\<close>

datatype json = JStr string | JInt int | JBool bool | JList "json list"

record audit_entry =
  timestamp :: string
  log_user_id :: string
  action :: string
  details :: string
  metadata :: "(string \<times> json) list"

record pipeline =
  user_id :: string
  audit_log :: "audit_entry list"
  documents :: "compliance_document list"

text \<open>
  The clock is a parameter: \<open>utcnow n\<close> is what \<open>datetime.utcnow().isoformat()\<close> returns
  when the entry number \<open>n\<close> of the log is written.
\<close>

definition log_action ::
  "(nat \<Rightarrow> string) \<Rightarrow> pipeline \<Rightarrow> string \<Rightarrow> string \<Rightarrow> (string \<times> json) list \<Rightarrow> pipeline" where
  "log_action utcnow self act det meta =
     (let log_entry = \<lparr>timestamp = utcnow (length (audit_log self)), log_user_id = user_id self,
                         action = act, details = det, metadata = meta\<rparr>
      in self\<lparr>audit_log := audit_log self @ [log_entry]\<rparr>)"

definition init ::
  "(nat \<Rightarrow> string) \<Rightarrow> (string \<Rightarrow> string) \<Rightarrow> fs_path option \<Rightarrow> string \<Rightarrow> py_error + pipeline" where
  \<comment> \<open>\<open>__init__\<close>; \<open>documents_path\<close> is \<open>None\<close> when no path (or an empty one) is given\<close>
  "init utcnow py_title documents_path uid =
     (case (case documents_path of
              Some path \<Rightarrow> load_documents py_title path
            | None \<Rightarrow> Inr create_sample_documents) of
        Inl e \<Rightarrow> Inl e
      | Inr docs \<Rightarrow>
          Inr (log_action utcnow \<lparr>user_id = uid, audit_log = [], documents = docs\<rparr>
                 ''SYSTEM_INIT'' (''Loaded '' @ str_nat (length docs) @ '' documents'') []))"

definition check_authorization ::
  "(nat \<Rightarrow> string) \<Rightarrow> pipeline \<Rightarrow> compliance_document \<Rightarrow> bool \<times> pipeline" where
  "check_authorization utcnow self document =
     (if requires_authorization document
      then (True, log_action utcnow self ''AUTHORIZATION_CHECK''
                    (''Access to '' @ classification document @ '' document '' @ doc_id document)
                    [(''document_id'', JStr (doc_id document)),
                     (''classification'', JStr (classification document))])
      else (True, self))"

definition search_step ::
  "(nat \<Rightarrow> string) \<Rightarrow> string \<Rightarrow> pipeline \<times> compliance_document scored list
    \<Rightarrow> compliance_document \<Rightarrow> pipeline \<times> compliance_document scored list" where
  \<comment> \<open>the body of the loop \<open>for doc in self.documents\<close> of \<open>search\<close>, on the pipeline and
      \<open>scored_docs\<close>\<close>
  "search_step utcnow query_lower acc d =
     (let (s, scored_docs) = acc;
          (authorized, s') = check_authorization utcnow s d
      in if \<not> authorized then (s', scored_docs)
         else let sc = keyword_score query_lower (py_lower (content d))
              in (s', if sc > 0 then scored_docs @ [\<lparr>doc = d, score = sc\<rparr>] else scored_docs))"

definition search ::
  "(nat \<Rightarrow> string) \<Rightarrow> pipeline \<Rightarrow> string \<Rightarrow> int
    \<Rightarrow> compliance_document scored list \<times> pipeline" where
  "search utcnow self query0 top_k =
     (let pii_detected = detect_pii query0;
          (self1, query1) =
            (if pii_detected \<noteq> []
             then (log_action utcnow self ''PII_DETECTED_IN_QUERY''
                     (''Query contains '' @ str_nat (length pii_detected) @ '' PII instances'')
                     [(''pii_types'', JList (map (\<lambda>p. JStr (pii_type p)) pii_detected))],
                   redact_pii query0)
             else (self, query0));
          self2 = log_action utcnow self1 ''SEARCH'' (''Query: '' @ query1) [(''top_k'', JInt top_k)];
          query_lower = py_lower query1;
          (self3, scored_docs) =
            foldl (search_step utcnow query_lower) (self2, []) (documents self2);
          retrieved = py_slice_to (sort_reverse score scored_docs) top_k
      in (retrieved,
          log_action utcnow self3 ''RETRIEVAL''
            (''Retrieved '' @ str_nat (length retrieved) @ '' documents'')
            [(''document_ids'', JList (map (\<lambda>d. JStr (doc_id (doc d))) retrieved))]))"

subsection \<open>Answers\<close>

text \<open>
  A citation, and the dictionary \<open>generate_answer\<close> returns. \<open>redacted_answer = None\<close> says
  that the dictionary has no key \<open>redacted_answer\<close>. The keys \<open>title\<close> and
  \<open>classification\<close> of a citation, and \<open>classification\<close> of the result, are the fields
  \<open>cited_title\<close>, \<open>cited_classification\<close> and \<open>overall_classification\<close>.
\<close>

record citation =
  document_id :: string
  cited_title :: string
  cited_classification :: string
  relevance_score :: int

record answer_result =
  answer :: string
  citations :: "citation list"
  pii_detected :: bool
  overall_classification :: string
  redacted_answer :: "string option"

definition classification_levels :: "(string \<times> int) list" where
  "classification_levels =
     [(''PUBLIC'', 0), (''INTERNAL'', 1), (''CONFIDENTIAL'', 2), (''RESTRICTED'', 3)]"

definition level :: "string \<Rightarrow> int" where
  \<comment> \<open>\<open>classification_levels.get(c, 0)\<close>\<close>
  "level c = (case map_of classification_levels c of Some n \<Rightarrow> n | None \<Rightarrow> 0)"

fun py_max_key :: "('a \<Rightarrow> int) \<Rightarrow> 'a \<Rightarrow> 'a list \<Rightarrow> 'a" where
  \<comment> \<open>\<open>max(x # xs, key=key)\<close>, with \<open>x\<close> the maximum so far: a later element replaces it
      only when its key is strictly greater, so the first maximal element is returned.\<close>
  "py_max_key key best [] = best"
| "py_max_key key best (x # xs) = py_max_key key (if key x > key best then x else best) xs"

definition generate_answer ::
  "(nat \<Rightarrow> string) \<Rightarrow> pipeline \<Rightarrow> string \<Rightarrow> compliance_document scored list
    \<Rightarrow> answer_result \<times> pipeline" where
  "generate_answer utcnow self query0 context_docs =
     (case context_docs of
        [] \<Rightarrow>
          (\<lparr>answer = ''No relevant information found.'', citations = [], pii_detected = False,
            overall_classification = ''PUBLIC'', redacted_answer = None\<rparr>, self)
      | top_doc # more_docs \<Rightarrow>
          (let classifications = map (\<lambda>d. classification (doc d)) context_docs;
               overall = py_max_key level (hd classifications) (tl classifications);
               answer0 = content (doc top_doc) @ [CHR 0x0A, CHR 0x0A];
               answer1 =
                 (if length context_docs > 1
                  then answer0 @ ''Additional information from ''
                         @ str_nat (length context_docs - 1) @ '' related document(s).''
                  else answer0);
               cits = map (\<lambda>d. \<lparr>document_id = doc_id (doc d), cited_title = title (doc d),
                                   cited_classification = classification (doc d),
                                   relevance_score = score d\<rparr>) context_docs;
               pii = detect_pii answer1;
               self1 = log_action utcnow self ''ANSWER_GENERATED''
                         (''Generated answer with classification: '' @ overall)
                         [(''classification'', JStr overall),
                          (''citations'', JInt (int (length cits))),
                          (''pii_detected'', JBool (length pii > 0))]
           in (\<lparr>answer = answer1, citations = cits, pii_detected = (length pii > 0),
                overall_classification = overall,
                redacted_answer = Some (if pii \<noteq> [] then redact_pii answer1 else answer1)\<rparr>,
               self1)))"

text \<open>The dictionary \<open>query\<close> returns: the answer's entries, and two more keys.\<close>

record query_result = answer_result +
  question :: string
  pii_in_question :: bool

definition query ::
  "(nat \<Rightarrow> string) \<Rightarrow> pipeline \<Rightarrow> string \<Rightarrow> int \<Rightarrow> query_result \<times> pipeline" where
  "query utcnow self question0 top_k =
     (let pii_q = detect_pii question0;
          (relevant_docs, self1) = search utcnow self question0 top_k;
          (result, self2) = generate_answer utcnow self1 question0 relevant_docs
      in (\<lparr>answer = answer result, citations = citations result,
           pii_detected = pii_detected result,
           overall_classification = overall_classification result,
           redacted_answer = redacted_answer result,
           question = question0, pii_in_question = (length pii_q > 0)\<rparr>,
          self2))"

definition get_audit_log :: "pipeline \<Rightarrow> audit_entry list \<times> pipeline" where
  "get_audit_log self = (audit_log self, self)"

definition export_audit_log :: "bool \<Rightarrow> pipeline \<Rightarrow> (py_error + audit_entry list) \<times> pipeline" where
  \<comment> \<open>\<open>writable\<close>: opening and writing the file succeeds. The result is what is written:
      the entries of the log, in order (their JSON text is not modelled).\<close>
  "export_audit_log writable self =
     ((if writable then Inr (audit_log self) else Inl OSError), self)"

section \<open>The enterprise pipeline (\<open>MockEnterpriseRAGPipeline\<close>)\<close>

text \<open>
  An enterprise document has the keys \<open>id\<close>, \<open>category\<close>, \<open>filename\<close>, \<open>content\<close> and
  \<open>path\<close>, a retrieved source the keys \<open>document\<close>, \<open>category\<close>, \<open>score\<close> and \<open>content\<close>;
  the fields carry the prefixes \<open>ent_\<close> and \<open>src_\<close>.

  The data directory as \<open>_load_documents\<close> sees it. \<open>DataMissing\<close>: \<open>data_path.exists()\<close> is
  false. \<open>DataFile\<close>: the path exists and is no directory, so \<open>iterdir()\<close> raises.
  \<open>DataDir entries\<close>: \<open>iterdir()\<close> yields \<open>entries\<close>, each a name and, for a directory,
  the files \<open>glob("*.txt")\<close> yields there: name, path and text (\<open>None\<close> when reading raises).
\<close>

record enterprise_document =
  ent_id :: string
  ent_category :: string
  ent_filename :: string
  ent_content :: string
  ent_path :: string





text \<open>
  The enterprise score is a Python \<open>float\<close>: every query word (of any length) that occurs in
  the content adds \<open>0.1\<close> times the number of its occurrences. The model computes it in
  exact rationals; it is used below for its sign only, which rounding does not change.
\<close>

definition mock_score :: "string \<Rightarrow> string \<Rightarrow> rat" where
  "mock_score query_lower content_lower =
     foldl (\<lambda>score keyword.
              if py_in keyword content_lower
              then score + of_int (py_count content_lower keyword) * (1 / 10)
              else score)
       0 (py_split query_lower)"

record source =
  src_document :: string
  src_category :: string
  src_score :: rat
  src_content :: string

definition mock_retrieval :: "enterprise_document list \<Rightarrow> string \<Rightarrow> int \<Rightarrow> source list" where
  "mock_retrieval docs query0 top_k =
     (let query_lower = py_lower query0;
          scored_docs =
            foldl (\<lambda>scored_docs d.
                let sc = mock_score query_lower (py_lower (ent_content d))
                in if sc > 0
                   then scored_docs @
                     [\<lparr>src_document = ent_filename d, src_category = ent_category d,
                       src_score = min sc 1, src_content = take 500 (ent_content d) @ ''...''\<rparr>]
                   else scored_docs)
              [] docs
      in py_slice_to (sort_reverse src_score scored_docs) top_k)"

section \<open>Example inputs\<close>

text \<open>
  A compliance pipeline over one small user document, and a clock that always shows the
  same time; the closed instances below are computed on them.
\<close>

definition demo_pipeline :: pipeline where
  "demo_pipeline = \<lparr>user_id = ''u'', audit_log = [],
      documents = [\<lparr>doc_id = ''DOC-001'', title = ''Leave'', content = ''Trip rules'',
         classification = ''PUBLIC'', category = ''user_document'',
         requires_authorization = False\<rparr>]\<rparr>"

definition demo_clock :: "nat \<Rightarrow> string" where
  "demo_clock n = ''2024-01-01T00:00:00''"

text \<open>The pipeline \<open>__init__\<close> builds from a directory with the one file \<open>leave_policy.txt\<close>.\<close>

definition demo_loaded :: pipeline where
  "demo_loaded = \<lparr>user_id = ''u'',
      audit_log = [\<lparr>timestamp = ''2024-01-01T00:00:00'', log_user_id = ''u'',
                       action = ''SYSTEM_INIT'', details = ''Loaded 1 documents'', metadata = []\<rparr>],
      documents = [\<lparr>doc_id = ''DOC-001'', title = ''trip rules'', content = ''Trip rules'',
         classification = ''PUBLIC'', category = ''user_document'',
         requires_authorization = False\<rparr>]\<rparr>"

text \<open>Four documents for the basic pipeline; the first and the third score equally.\<close>

definition demo_documents :: "int document list" where
  "demo_documents =
     [\<lparr>doc_id = 1, title = ''Leave'', content = ''Trip plan, trip cost''\<rparr>,
      \<lparr>doc_id = 2, title = ''Remote'', content = ''Stay home''\<rparr>,
      \<lparr>doc_id = 3, title = ''Requests'', content = ''Trips and TRIPS''\<rparr>,
      \<lparr>doc_id = 4, title = ''Calendar'', content = ''trip TRIP trip''\<rparr>]"

section \<open>Vocabulary of the statements\<close>

subsection \<open>Retrieval\<close>

text \<open>
  \<open>effective_query q\<close> is the query the compliance pipeline's \<open>search\<close> scores with: the
  redacted query when PII is detected in \<open>q\<close>, else \<open>q\<close> itself.
  \<open>doc_score q d\<close> is the score \<open>search\<close> computes for the document \<open>d\<close> and the query \<open>q\<close>,
  and \<open>ranking q ds\<close> the sorted list \<open>scored_docs\<close> that \<open>search\<close> slices.
  \<open>ranked q ds r\<close> says what is required of a ranking \<open>r\<close> of the documents \<open>ds\<close>:
  its entries are documents of \<open>ds\<close> with their scores, which are positive; the scores
  descend; and for every score, the documents with that score are, in this order, the
  documents of \<open>ds\<close> with that score (so every document with a positive score is listed,
  and documents with equal scores keep their order).
\<close>

definition effective_query :: "string \<Rightarrow> string" where
  "effective_query q = (if detect_pii q \<noteq> [] then redact_pii q else q)"

definition doc_score :: "string \<Rightarrow> ('i, 'z) document_scheme \<Rightarrow> int" where
  "doc_score q d = keyword_score (py_lower q) (py_lower (content d))"

definition ranking :: "string \<Rightarrow> ('i, 'z) document_scheme list \<Rightarrow> ('i, 'z) document_scheme scored list" where
  "ranking q ds =
     sort_reverse score
       (map (\<lambda>d. \<lparr>doc = d, score = doc_score q d\<rparr>) (filter (\<lambda>d. doc_score q d > 0) ds))"

definition ranked ::
  "string \<Rightarrow> ('i, 'z) document_scheme list \<Rightarrow> ('i, 'z) document_scheme scored list \<Rightarrow> bool" where
  "ranked q ds r \<longleftrightarrow>
     (\<forall>s \<in> set r. doc s \<in> set ds \<and> score s = doc_score q (doc s) \<and> 0 < score s) \<and>
     sorted_wrt (\<lambda>a b. score b \<le> score a) r \<and>
     (\<forall>v. map doc (filter (\<lambda>s. score s = v) r) = filter (\<lambda>d. doc_score q d = v \<and> 0 < v) ds)"

subsection \<open>Matching\<close>

text \<open>
  What a pattern accepts, without the order in which the engine tries: \<open>accepts r prev w nxt\<close>
  says that \<open>r\<close> matches exactly the word \<open>w\<close> when \<open>prev\<close> is the character before \<open>w\<close>
  and \<open>nxt\<close> the character after it (\<open>None\<close> at the ends of the string).
\<close>

definition first_of :: "string \<Rightarrow> char option \<Rightarrow> char option" where
  "first_of w nxt = (case w of [] \<Rightarrow> nxt | c # _ \<Rightarrow> Some c)"

fun accepts :: "item list \<Rightarrow> char option \<Rightarrow> string \<Rightarrow> char option \<Rightarrow> bool" where
  "accepts [] prev w nxt = (w = [])"
| "accepts (Bnd # r) prev w nxt = (word_opt prev \<noteq> word_opt (first_of w nxt) \<and> accepts r prev w nxt)"
| "accepts (Rep cls lo hi # r) prev w nxt =
     (\<exists>j. lo \<le> j \<and> j \<le> length w \<and> (case hi of None \<Rightarrow> True | Some h \<Rightarrow> j \<le> h) \<and>
          (\<forall>c \<in> set (take j w). cls c) \<and>
          accepts r (ctx_after prev (take j w)) (drop j w) nxt)"

text \<open>
  The shape the four patterns share: \<open>\b\<close>, then character classes with repetitions, then
  \<open>\b\<close>; no class contains a square bracket; and one class that must occur at least once
  contains only \<open>@\<close> or only digits. A word accepted by such a pattern is a \<open>clean_word\<close>.
\<close>

fun item_has :: "item \<Rightarrow> char \<Rightarrow> bool" where
  "item_has Bnd c = False"
| "item_has (Rep cls lo hi) c = cls c"

fun is_rep :: "item \<Rightarrow> bool" where
  "is_rep Bnd = False"
| "is_rep (Rep cls lo hi) = True"

fun mandatory :: "item \<Rightarrow> bool" where
  "mandatory Bnd = False"
| "mandatory (Rep cls lo hi) = (0 < lo)"

definition clean_word :: "string \<Rightarrow> bool" where
  "clean_word w \<longleftrightarrow>
     w \<noteq> [] \<and> CHR ''['' \<notin> set w \<and> CHR '']'' \<notin> set w \<and> (\<exists>c \<in> set w. c = CHR ''@'' \<or> is_digit c)"

definition pii_like :: "item list \<Rightarrow> bool" where
  "pii_like p \<longleftrightarrow>
     (\<exists>body. p = Bnd # body @ [Bnd] \<and> list_all is_rep body \<and>
        (\<forall>it \<in> set body. \<forall>c. item_has it c \<longrightarrow> c \<noteq> CHR ''['' \<and> c \<noteq> CHR '']'') \<and>
        (\<exists>it \<in> set body. mandatory it \<and> (\<forall>c. item_has it c \<longrightarrow> c = CHR ''@'' \<or> is_digit c)))"

text \<open>
  \<open>match_free p prev s\<close>: the pattern \<open>p\<close> matches at no position of \<open>s\<close>, where \<open>prev\<close> is the
  character before \<open>s\<close>. A \<open>placeholder_like\<close> replacement is a pair of square brackets
  around characters that are neither \<open>@\<close> nor digits.
\<close>

fun match_free :: "item list \<Rightarrow> char option \<Rightarrow> string \<Rightarrow> bool" where
  "match_free p prev [] = True"
| "match_free p prev (c # cs) = (rmatch p prev (c # cs) = None \<and> match_free p (Some c) cs)"

definition placeholder_like :: "string \<Rightarrow> bool" where
  "placeholder_like repl \<longleftrightarrow>
     (\<exists>mid. repl = CHR ''['' # mid @ [CHR '']''] \<and>
        (\<forall>c \<in> set mid. c \<noteq> CHR ''@'' \<and> \<not> is_digit c))"

section \<open>Substring facts\<close>




section \<open>Facts about scoring\<close>



















section \<open>Facts about loading\<close>

text \<open>A load yields no document exactly when \<open>glob\<close> yields no file.\<close>

lemma simple_read_nonempty:
  "simple_read_documents py_title i files = Inr [] \<longleftrightarrow> files = []"
proof (cases files)
  case Nil
  then show ?thesis by simp
next
  case (Cons f fs)
  obtain stem t where f: "f = (stem, t)" by (cases f)
  show ?thesis
    by (cases t) (simp_all add: Cons f split: sum.splits)
qed

lemma read_nonempty:
  "read_documents py_title i files = Inr [] \<longleftrightarrow> files = []"
proof (cases files)
  case Nil
  then show ?thesis by simp
next
  case (Cons f fs)
  obtain stem t where f: "f = (stem, t)" by (cases f)
  show ?thesis
    by (cases t) (simp_all add: Cons f Let_def split: sum.splits)
qed



section \<open>Facts about the answer\<close>

lemma py_max_key_mem: "py_max_key key b xs \<in> set (b # xs)"
  by (induction xs arbitrary: b) auto

lemma py_max_key_best: "key b \<le> key (py_max_key key b xs)"
proof (induction xs arbitrary: b)
  case Nil
  then show ?case by simp
next
  case (Cons y ys)
  show ?case
  proof (cases "key y > key b")
    case True
    then show ?thesis using Cons.IH [of y] by simp
  next
    case False
    then show ?thesis using Cons.IH [of b] by simp
  qed
qed

lemma py_max_key_ge: "x \<in> set xs \<Longrightarrow> key x \<le> key (py_max_key key b xs)"
proof (induction xs arbitrary: b)
  case Nil
  then show ?case by simp
next
  case (Cons y ys)
  show ?case
  proof (cases "x = y")
    case True
    show ?thesis
    proof (cases "key y > key b")
      case True
      then show ?thesis using \<open>x = y\<close> py_max_key_best [of key y ys] by simp
    next
      case False
      then show ?thesis using \<open>x = y\<close> py_max_key_best [of key b ys] by simp
    qed
  next
    case False
    then have "x \<in> set ys" using Cons.prems by simp
    then show ?thesis using Cons.IH by simp
  qed
qed

lemma level_values:
  "level ''PUBLIC'' = 0" "level ''INTERNAL'' = 1" "level ''CONFIDENTIAL'' = 2" "level ''RESTRICTED'' = 3"
  by (simp_all add: level_def classification_levels_def)

lemma overall_nonempty:
  "overall_classification (fst (generate_answer utcnow self q (d # ds))) =
     py_max_key level (classification (doc d)) (map (\<lambda>d. classification (doc d)) ds)"
  by (simp add: generate_answer_def Let_def)

lemma fst_query:
  "fst (query utcnow self q top_k) =
     (let result = fst (generate_answer utcnow (snd (search utcnow self q top_k)) q
                          (fst (search utcnow self q top_k)))
      in \<lparr>answer = answer result, citations = citations result,
           pii_detected = pii_detected result,
           overall_classification = overall_classification result,
           redacted_answer = redacted_answer result,
           question = q, pii_in_question = (length (detect_pii q) > 0)\<rparr>)"
  by (simp add: query_def Let_def case_prod_beta)

lemma generate_answer_empty:
  "fst (generate_answer utcnow self q []) =
     \<lparr>answer = ''No relevant information found.'', citations = [], pii_detected = False,
      overall_classification = ''PUBLIC'', redacted_answer = None\<rparr>"
  by (simp add: generate_answer_def)

lemma generate_answer_nonempty:
  "ds \<noteq> [] \<Longrightarrow>
   redacted_answer (fst (generate_answer utcnow self q ds)) =
     Some (if pii_detected (fst (generate_answer utcnow self q ds))
           then redact_pii (answer (fst (generate_answer utcnow self q ds)))
           else answer (fst (generate_answer utcnow self q ds))) \<and>
   pii_detected (fst (generate_answer utcnow self q ds)) =
     (detect_pii (answer (fst (generate_answer utcnow self q ds))) \<noteq> []) \<and>
   map document_id (citations (fst (generate_answer utcnow self q ds))) = map (\<lambda>d. doc_id (doc d)) ds"
  by (cases ds) (simp_all add: generate_answer_def Let_def comp_def)

section \<open>Facts about the compliance pipeline's search and its audit log\<close>

text \<open>Each operation writes to the log through \<open>_log_action\<close> only, which appends.\<close>

lemma audit_log_log_action:
  "audit_log (log_action utcnow self act det meta) =
     audit_log self @ [\<lparr>timestamp = utcnow (length (audit_log self)), log_user_id = user_id self,
                         action = act, details = det, metadata = meta\<rparr>]"
  by (simp add: log_action_def)

lemma documents_log_action: "documents (log_action utcnow self act det meta) = documents self"
  by (simp add: log_action_def)

lemma prefix_log_action: "prefix (audit_log self) (audit_log (log_action utcnow self act det meta))"
  by (simp add: audit_log_log_action)

lemma prefix_check_authorization:
  "prefix (audit_log self) (audit_log (snd (check_authorization utcnow self d)))"
  by (simp add: check_authorization_def prefix_log_action)

lemma fst_check_authorization: "fst (check_authorization utcnow self d)"
  by (simp add: check_authorization_def)

lemma documents_check_authorization:
  "documents (snd (check_authorization utcnow self d)) = documents self"
  by (simp add: check_authorization_def documents_log_action)

lemma search_step_eq:
  "search_step utcnow ql (s, found) d =
     (snd (check_authorization utcnow s d),
      if keyword_score ql (py_lower (content d)) > 0
      then found @ [\<lparr>doc = d, score = keyword_score ql (py_lower (content d))\<rparr>] else found)"
  using fst_check_authorization [of utcnow s d]
  by (simp add: search_step_def Let_def case_prod_beta)

lemma prefix_search_loop:
  "prefix (audit_log s) (audit_log (fst (foldl (search_step utcnow ql) (s, found) ds)))"
proof (induction ds arbitrary: s found)
  case Nil
  then show ?case by simp
next
  case (Cons d ds)
  let ?s' = "snd (check_authorization utcnow s d)"
  let ?acc' = "if keyword_score ql (py_lower (content d)) > 0
      then found @ [\<lparr>doc = d, score = keyword_score ql (py_lower (content d))\<rparr>] else found"
  have "prefix (audit_log s) (audit_log ?s')"
    by (rule prefix_check_authorization)
  moreover have "prefix (audit_log ?s') (audit_log (fst (foldl (search_step utcnow ql) (?s', ?acc') ds)))"
    by (rule Cons.IH)
  ultimately have "prefix (audit_log s) (audit_log (fst (foldl (search_step utcnow ql) (?s', ?acc') ds)))"
    by (rule prefix_order.order_trans)
  then show ?case by (simp only: foldl_Cons search_step_eq)
qed

lemma snd_search_loop:
  "snd (foldl (search_step utcnow ql) (s, found) ds) =
     found @ map (\<lambda>d. \<lparr>doc = d, score = keyword_score ql (py_lower (content d))\<rparr>)
             (filter (\<lambda>d. keyword_score ql (py_lower (content d)) > 0) ds)"
proof (induction ds arbitrary: s found)
  case Nil
  then show ?case by simp
next
  case (Cons d ds)
  show ?case
    by (simp only: foldl_Cons search_step_eq Cons.IH) simp
qed

lemma prefix_search: "prefix (audit_log self) (audit_log (snd (search utcnow self q top_k)))"
proof -
  obtain self1 query1 where sq: "(if detect_pii q \<noteq> []
             then (log_action utcnow self ''PII_DETECTED_IN_QUERY''
                     (''Query contains '' @ str_nat (length (detect_pii q)) @ '' PII instances'')
                     [(''pii_types'', JList (map (\<lambda>p. JStr (pii_type p)) (detect_pii q)))],
                   redact_pii q)
             else (self, q)) = (self1, query1)"
    by (cases "detect_pii q = []") auto
  have 1: "prefix (audit_log self) (audit_log self1)"
    using sq by (auto split: if_splits simp: prefix_log_action)
  let ?self2 = "log_action utcnow self1 ''SEARCH'' (''Query: '' @ query1) [(''top_k'', JInt top_k)]"
  let ?loop = "foldl (search_step utcnow (py_lower query1)) (?self2, []) (documents ?self2)"
  have 2: "prefix (audit_log self1) (audit_log ?self2)"
    by (rule prefix_log_action)
  have 3: "prefix (audit_log ?self2) (audit_log (fst ?loop))"
    by (rule prefix_search_loop)
  have 4: "prefix (audit_log (fst ?loop)) (audit_log (snd (search utcnow self q top_k)))"
    unfolding search_def Let_def sq by (simp add: case_prod_beta prefix_log_action)
  from 1 2 3 4 show ?thesis
    by (meson prefix_order.order_trans)
qed

lemma prefix_generate_answer:
  "prefix (audit_log self) (audit_log (snd (generate_answer utcnow self q ds)))"
  by (cases ds) (simp_all add: generate_answer_def Let_def prefix_log_action)

lemma snd_query:
  "snd (query utcnow self q top_k) =
     snd (generate_answer utcnow (snd (search utcnow self q top_k)) q (fst (search utcnow self q top_k)))"
  by (simp add: query_def Let_def case_prod_beta)

lemma prefix_query: "prefix (audit_log self) (audit_log (snd (query utcnow self q top_k)))"
  unfolding snd_query
  by (meson prefix_order.order_trans prefix_search prefix_generate_answer)

lemma fst_search:
  "fst (search utcnow self q top_k) =
     py_slice_to (sort_reverse score
        (map (\<lambda>d. \<lparr>doc = d, score = keyword_score (py_lower (effective_query q)) (py_lower (content d))\<rparr>)
             (filter (\<lambda>d. keyword_score (py_lower (effective_query q)) (py_lower (content d)) > 0)
                (documents self)))) top_k"
proof (cases "detect_pii q = []")
  case True
  then show ?thesis
    unfolding search_def Let_def effective_query_def
    by (simp add: case_prod_beta snd_search_loop documents_log_action)
next
  case False
  then show ?thesis
    unfolding search_def Let_def effective_query_def
    by (simp add: case_prod_beta snd_search_loop documents_log_action)
qed

lemma init_log:
  "init utcnow py_title documents_path uid = Inr p \<Longrightarrow>
     \<exists>e. audit_log p = [e] \<and> action e = ''SYSTEM_INIT''"
  by (auto simp: init_def audit_log_log_action split: sum.splits)

section \<open>Facts about search\<close>

text \<open>Both pipelines return a slice of the ranking, and the ranking is \<open>ranked\<close>.\<close>

lemma simple_loop:
  "foldl (\<lambda>scored_docs d.
            if keyword_score ql (py_lower (content d)) > 0
            then scored_docs @ [\<lparr>doc = d, score = keyword_score ql (py_lower (content d))\<rparr>]
            else scored_docs) acc ds =
   acc @ map (\<lambda>d. \<lparr>doc = d, score = keyword_score ql (py_lower (content d))\<rparr>)
             (filter (\<lambda>d. keyword_score ql (py_lower (content d)) > 0) ds)"
  by (induction ds arbitrary: acc) simp_all

lemma simple_search_ranking: "simple_search ds q top_k = py_slice_to (ranking q ds) top_k"
  by (simp add: simple_search_def simple_loop ranking_def doc_score_def Let_def)

lemma search_ranking:
  "fst (search utcnow self q top_k) = py_slice_to (ranking (effective_query q) (documents self)) top_k"
  by (simp add: fst_search ranking_def doc_score_def)

lemma set_ranking:
  "set (ranking q ds) = (\<lambda>d. \<lparr>doc = d, score = doc_score q d\<rparr>) ` {d \<in> set ds. doc_score q d > 0}"
  by (simp add: ranking_def sort_reverse_def)

lemma ranking_scores:
  "s \<in> set (ranking q ds) \<Longrightarrow> score s = doc_score q (doc s) \<and> 0 < score s \<and> doc s \<in> set ds"
  by (auto simp: set_ranking)

lemma ranking_sorted: "sorted_wrt (\<lambda>a b. score a \<ge> score b) (ranking q ds)"
proof -
  have "sorted (map (\<lambda>x. - score x) (ranking q ds))"
    unfolding ranking_def sort_reverse_def by (rule sorted_sort_key)
  then show ?thesis by (simp add: sorted_map)
qed

lemma ranking_stable:
  "map doc (filter (\<lambda>s. score s = v) (ranking q ds)) = filter (\<lambda>d. doc_score q d = v \<and> 0 < v) ds"
proof -
  have "filter (\<lambda>s. score s = v) (ranking q ds) =
        filter (\<lambda>s. - score s = - v) (ranking q ds)" by simp
  also have "\<dots> = filter (\<lambda>s. - score s = - v)
       (map (\<lambda>d. \<lparr>doc = d, score = doc_score q d\<rparr>) (filter (\<lambda>d. doc_score q d > 0) ds))"
    unfolding ranking_def sort_reverse_def by (rule sort_key_stable)
  finally have "map doc (filter (\<lambda>s. score s = v) (ranking q ds)) =
     map doc (filter (\<lambda>s. score s = v)
       (map (\<lambda>d. \<lparr>doc = d, score = doc_score q d\<rparr>) (filter (\<lambda>d. doc_score q d > 0) ds)))"
    by simp
  also have "\<dots> = filter (\<lambda>d. doc_score q d = v \<and> 0 < v) ds"
    by (induction ds) auto
  finally show ?thesis .
qed

lemma length_ranking: "length (ranking q ds) = length (filter (\<lambda>d. doc_score q d > 0) ds)"
  by (simp add: ranking_def sort_reverse_def)

lemma ranked_ranking: "ranked q ds (ranking q ds)"
  unfolding ranked_def
  using ranking_scores [of _ q ds] ranking_sorted [of q ds] ranking_stable [of _ q ds]
  by blast

lemma py_slice_to_pos: "0 < k \<Longrightarrow> py_slice_to xs k = take (nat k) xs"
  by (simp add: py_slice_to_def)

lemma py_slice_to_zero: "py_slice_to xs 0 = []"
  by (simp add: py_slice_to_def)

lemma py_slice_to_neg: "k < 0 \<Longrightarrow> py_slice_to xs k = take (length xs - nat (- k)) xs"
  by (simp add: py_slice_to_def)

section \<open>Facts about the matcher\<close>

text \<open>The matcher finds a match where a word is accepted, and what it finds is accepted.\<close>

lemma first_of_take: "n \<le> length s \<Longrightarrow> first_of (take n s) (first_char (drop n s)) = first_char s"
  by (cases s; cases n) (simp_all add: first_of_def first_char_def)

lemma first_some_Some: "first_some f xs = Some y \<Longrightarrow> \<exists>x \<in> set xs. f x = Some y"
  by (induction xs) (auto split: option.splits)

lemma first_some_None: "first_some f xs = None \<Longrightarrow> x \<in> set xs \<Longrightarrow> f x = None"
  by (induction xs) (auto split: option.splits)

lemma take_takeWhile: "j \<le> length (takeWhile P s) \<Longrightarrow> c \<in> set (take j s) \<Longrightarrow> P c"
proof (induction s arbitrary: j)
  case Nil
  then show ?case by simp
next
  case (Cons x xs)
  show ?case
  proof (cases j)
    case 0
    then show ?thesis using Cons.prems by simp
  next
    case (Suc k)
    show ?thesis
    proof (cases "P x")
      case True
      then show ?thesis using Cons Suc by auto
    next
      case False
      then show ?thesis using Cons.prems Suc by simp
    qed
  qed
qed

lemma takeWhile_take: "j \<le> length s \<Longrightarrow> \<forall>c \<in> set (take j s). P c \<Longrightarrow> j \<le> length (takeWhile P s)"
proof (induction s arbitrary: j)
  case Nil
  then show ?case by simp
next
  case (Cons x xs)
  show ?case
  proof (cases j)
    case 0
    then show ?thesis by simp
  next
    case (Suc k)
    then show ?thesis using Cons by auto
  qed
qed

lemma max_count_le: "max_count cls hi s \<le> length (takeWhile cls s)"
  by (simp add: max_count_def Let_def split: option.splits)

lemma max_count_hi: "j \<le> max_count cls hi s \<Longrightarrow> (case hi of None \<Rightarrow> True | Some h \<Rightarrow> j \<le> h)"
  by (simp add: max_count_def Let_def split: option.splits)

lemma max_count_ge:
  "j \<le> length (takeWhile cls s) \<Longrightarrow> (case hi of None \<Rightarrow> True | Some h \<Rightarrow> j \<le> h) \<Longrightarrow>
     j \<le> max_count cls hi s"
  by (simp add: max_count_def Let_def split: option.splits)

lemma rmatch_sound:
  "rmatch r prev s = Some n \<Longrightarrow> n \<le> length s \<and> accepts r prev (take n s) (first_char (drop n s))"
proof (induction r arbitrary: prev s n)
  case Nil
  then show ?case by simp
next
  case (Cons it r)
  show ?case
  proof (cases it)
    case Bnd
    with Cons.prems have b: "at_boundary prev s" and m: "rmatch r prev s = Some n"
      by (auto split: if_splits)
    from Cons.IH [OF m] have n: "n \<le> length s" and a: "accepts r prev (take n s) (first_char (drop n s))"
      by auto
    from b have "word_opt prev \<noteq> word_opt (first_of (take n s) (first_char (drop n s)))"
      by (simp add: at_boundary_def first_of_take [OF n])
    then show ?thesis using n a Bnd by simp
  next
    case (Rep cls lo hi)
    let ?f = "\<lambda>j. map_option (\<lambda>n. j + n) (rmatch r (ctx_after prev (take j s)) (drop j s))"
    from Cons.prems Rep have "first_some ?f (rev [lo ..< Suc (max_count cls hi s)]) = Some n"
      by simp
    then obtain j where j: "j \<in> set (rev [lo ..< Suc (max_count cls hi s)])" and fj: "?f j = Some n"
      using first_some_Some by fastforce
    from fj obtain m where m: "rmatch r (ctx_after prev (take j s)) (drop j s) = Some m"
      and nm: "n = j + m" by auto
    from j have lo: "lo \<le> j" and mc: "j \<le> max_count cls hi s" by auto
    from mc have jt: "j \<le> length (takeWhile cls s)" using max_count_le [of cls hi s] by simp
    then have jl: "j \<le> length s" using length_takeWhile_le [of cls s] by simp
    from Cons.IH [OF m] have ml: "m \<le> length (drop j s)"
      and a: "accepts r (ctx_after prev (take j s)) (take m (drop j s)) (first_char (drop m (drop j s)))"
      by auto
    have nl: "n \<le> length s" using ml jl nm by simp
    have t1: "take j (take n s) = take j s" using nm by (simp add: min_def)
    have t2: "drop j (take n s) = take m (drop j s)" using nm by (simp add: drop_take)
    have t3: "drop m (drop j s) = drop n s" using nm by (simp add: add.commute)
    have cl: "\<forall>c \<in> set (take j s). cls c" using take_takeWhile [OF jt] by blast
    have "accepts (Rep cls lo hi # r) prev (take n s) (first_char (drop n s))"
      unfolding accepts.simps
    proof (intro exI [of _ j] conjI)
      show "lo \<le> j" by (rule lo)
      show "j \<le> length (take n s)" using nl nm by simp
      show "case hi of None \<Rightarrow> True | Some h \<Rightarrow> j \<le> h" using mc by (rule max_count_hi)
      show "\<forall>c \<in> set (take j (take n s)). cls c" unfolding t1 by (rule cl)
      show "accepts r (ctx_after prev (take j (take n s))) (drop j (take n s)) (first_char (drop n s))"
        unfolding t1 t2 using a unfolding t3 .
    qed
    then show ?thesis using nl Rep by simp
  qed
qed

lemma rmatch_complete:
  "n \<le> length s \<Longrightarrow> accepts r prev (take n s) (first_char (drop n s)) \<Longrightarrow> rmatch r prev s \<noteq> None"
proof (induction r arbitrary: prev s n)
  case Nil
  then show ?case by simp
next
  case (Cons it r)
  show ?case
  proof (cases it)
    case Bnd
    with Cons.prems have b: "word_opt prev \<noteq> word_opt (first_of (take n s) (first_char (drop n s)))"
      and a: "accepts r prev (take n s) (first_char (drop n s))" by auto
    from b have "at_boundary prev s"
      by (simp add: at_boundary_def first_of_take [OF Cons.prems(1)])
    moreover have "rmatch r prev s \<noteq> None" using Cons.IH [OF Cons.prems(1) a] .
    ultimately show ?thesis using Bnd by simp
  next
    case (Rep cls lo hi)
    from Cons.prems(2) Rep obtain j where lo: "lo \<le> j" and jl: "j \<le> length (take n s)"
      and hi: "case hi of None \<Rightarrow> True | Some h \<Rightarrow> j \<le> h"
      and cl: "\<forall>c \<in> set (take j (take n s)). cls c"
      and a: "accepts r (ctx_after prev (take j (take n s))) (drop j (take n s)) (first_char (drop n s))"
      by auto
    from jl Cons.prems(1) have jn: "j \<le> n" and js: "j \<le> length s" by auto
    have t1: "take j (take n s) = take j s" using jn by (simp add: min_def)
    have t2: "drop j (take n s) = take (n - j) (drop j s)" by (simp add: drop_take)
    have t3: "drop (n - j) (drop j s) = drop n s" using jn by simp
    have "n - j \<le> length (drop j s)" using Cons.prems(1) by simp
    moreover have "accepts r (ctx_after prev (take j s)) (take (n - j) (drop j s))
        (first_char (drop (n - j) (drop j s)))"
      using a unfolding t1 t2 t3 .
    ultimately have m: "rmatch r (ctx_after prev (take j s)) (drop j s) \<noteq> None"
      by (rule Cons.IH)
    let ?f = "\<lambda>j. map_option (\<lambda>n. j + n) (rmatch r (ctx_after prev (take j s)) (drop j s))"
    have "j \<le> length (takeWhile cls s)"
      using takeWhile_take [OF js] cl unfolding t1 by blast
    then have "j \<le> max_count cls hi s" using hi by (rule max_count_ge)
    then have jin: "j \<in> set (rev [lo ..< Suc (max_count cls hi s)])" using lo by auto
    have "first_some ?f (rev [lo ..< Suc (max_count cls hi s)]) \<noteq> None"
    proof
      assume "first_some ?f (rev [lo ..< Suc (max_count cls hi s)]) = None"
      from first_some_None [OF this jin] show False using m by simp
    qed
    then show ?thesis using Rep by simp
  qed
qed

text \<open>Whether a word is accepted depends on its context only through the two \<open>\b\<close>.\<close>

lemma ctx_after_append: "ctx_after (ctx_after prev a) b = ctx_after prev (a @ b)"
  by (simp add: ctx_after_def)

lemma acc_rep_ctx: "list_all is_rep r \<Longrightarrow> accepts r prev w nxt \<Longrightarrow> accepts r prev' w nxt'"
proof (induction r arbitrary: prev prev' w)
  case Nil
  then show ?case by simp
next
  case (Cons it r)
  from Cons.prems(1) obtain cls lo hi where it: "it = Rep cls lo hi" and r: "list_all is_rep r"
    by (cases it) auto
  from Cons.prems(2) it obtain j where j: "lo \<le> j" "j \<le> length w"
      "case hi of None \<Rightarrow> True | Some h \<Rightarrow> j \<le> h" "\<forall>c \<in> set (take j w). cls c"
    and a: "accepts r (ctx_after prev (take j w)) (drop j w) nxt" by auto
  from Cons.IH [OF r a] have "accepts r (ctx_after prev' (take j w)) (drop j w) nxt'" .
  with j show ?case unfolding it accepts.simps by blast
qed

lemma acc_chars: "accepts r prev w nxt \<Longrightarrow> c \<in> set w \<Longrightarrow> \<exists>it \<in> set r. item_has it c"
proof (induction r arbitrary: prev w)
  case Nil
  then show ?case by simp
next
  case (Cons it r)
  show ?case
  proof (cases it)
    case Bnd
    with Cons.prems have "accepts r prev w nxt" by simp
    from Cons.IH [OF this Cons.prems(2)] show ?thesis by auto
  next
    case (Rep cls lo hi)
    with Cons.prems(1) obtain j where cl: "\<forall>c \<in> set (take j w). cls c"
      and a: "accepts r (ctx_after prev (take j w)) (drop j w) nxt" by auto
    from Cons.prems(2) have "c \<in> set (take j w) \<or> c \<in> set (drop j w)"
      by (metis Un_iff append_take_drop_id set_append)
    then show ?thesis
    proof
      assume "c \<in> set (take j w)"
      with cl have "item_has it c" using Rep by simp
      then show ?thesis by auto
    next
      assume "c \<in> set (drop j w)"
      from Cons.IH [OF a this] show ?thesis by auto
    qed
  qed
qed

lemma acc_mandatory:
  "it \<in> set r \<Longrightarrow> mandatory it \<Longrightarrow> accepts r prev w nxt \<Longrightarrow> \<exists>c \<in> set w. item_has it c"
proof (induction r arbitrary: prev w)
  case Nil
  then show ?case by simp
next
  case (Cons x r)
  show ?case
  proof (cases x)
    case Bnd
    with Cons.prems have "it \<in> set r" "accepts r prev w nxt" by auto
    from Cons.IH [OF this(1) Cons.prems(2) this(2)] show ?thesis .
  next
    case (Rep cls lo hi)
    with Cons.prems(3) obtain j where j: "lo \<le> j" "j \<le> length w"
      and cl: "\<forall>c \<in> set (take j w). cls c"
      and a: "accepts r (ctx_after prev (take j w)) (drop j w) nxt" by auto
    show ?thesis
    proof (cases "it = x")
      case True
      with Cons.prems(2) Rep have "0 < lo" by simp
      with j have "take j w \<noteq> []" by auto
      then obtain c where c: "c \<in> set (take j w)" by (cases "take j w") auto
      then have "c \<in> set w" by (rule in_set_takeD)
      moreover from c cl have "item_has it c" using True Rep by simp
      ultimately show ?thesis by blast
    next
      case False
      with Cons.prems(1) have "it \<in> set r" by simp
      from Cons.IH [OF this Cons.prems(2) a] obtain c where "c \<in> set (drop j w)" "item_has it c"
        by blast
      then show ?thesis using in_set_dropD by fast
    qed
  qed
qed

lemma acc_append_bnd:
  "list_all is_rep body \<Longrightarrow>
     accepts (body @ [Bnd]) prev w nxt \<longleftrightarrow>
       accepts body prev w nxt \<and> word_opt (ctx_after prev w) \<noteq> word_opt nxt"
proof (induction body arbitrary: prev w)
  case Nil
  show ?case by (cases w) (auto simp: first_of_def ctx_after_def)
next
  case (Cons it body)
  from Cons.prems obtain cls lo hi where it: "it = Rep cls lo hi" and r: "list_all is_rep body"
    by (cases it) auto
  have ctx: "ctx_after (ctx_after prev (take j w)) (drop j w) = ctx_after prev w" for j
    by (simp add: ctx_after_append)
  show ?case
    unfolding it append_Cons accepts.simps Cons.IH [OF r] ctx by blast
qed

lemma pii_acc_iff:
  "list_all is_rep body \<Longrightarrow>
     accepts (Bnd # body @ [Bnd]) prev w nxt \<longleftrightarrow>
       word_opt prev \<noteq> word_opt (first_of w nxt) \<and> accepts body prev w nxt \<and>
       word_opt (ctx_after prev w) \<noteq> word_opt nxt"
  by (simp add: acc_append_bnd)

lemma pii_acc:
  assumes "pii_like p" and "accepts p prev w nxt"
  shows "clean_word w \<and> word_opt prev \<noteq> is_word (hd w) \<and> is_word (last w) \<noteq> word_opt nxt"
proof -
  from assms(1) obtain body where p: "p = Bnd # body @ [Bnd]" and rep: "list_all is_rep body"
    and nb: "\<forall>it \<in> set body. \<forall>c. item_has it c \<longrightarrow> c \<noteq> CHR ''['' \<and> c \<noteq> CHR '']''"
    and md: "\<exists>it \<in> set body. mandatory it \<and> (\<forall>c. item_has it c \<longrightarrow> c = CHR ''@'' \<or> is_digit c)"
    unfolding pii_like_def by blast
  from assms(2) have b1: "word_opt prev \<noteq> word_opt (first_of w nxt)" and a: "accepts body prev w nxt"
    and b2: "word_opt (ctx_after prev w) \<noteq> word_opt nxt"
    unfolding p pii_acc_iff [OF rep] by auto
  from md obtain it where it: "it \<in> set body" "mandatory it"
    and itc: "\<forall>c. item_has it c \<longrightarrow> c = CHR ''@'' \<or> is_digit c" by blast
  from acc_mandatory [OF it a] obtain c where c: "c \<in> set w" "item_has it c" by blast
  then have ne: "w \<noteq> []" by auto
  have ex: "\<exists>c \<in> set w. c = CHR ''@'' \<or> is_digit c" using c itc by blast
  have nobr: "CHR ''['' \<notin> set w \<and> CHR '']'' \<notin> set w"
  proof -
    have "x \<noteq> CHR ''['' \<and> x \<noteq> CHR '']''" if "x \<in> set w" for x
      using acc_chars [OF a that] nb by blast
    then show ?thesis by blast
  qed
  from ne have "first_of w nxt = Some (hd w)" by (cases w) (simp_all add: first_of_def)
  with b1 have s: "word_opt prev \<noteq> is_word (hd w)" by (simp add: word_opt_def)
  from ne b2 have e: "is_word (last w) \<noteq> word_opt nxt" by (simp add: ctx_after_def word_opt_def)
  show ?thesis using ne nobr ex s e unfolding clean_word_def by blast
qed

lemma pii_acc_transfer:
  assumes "pii_like p" and "accepts p prev w nxt"
    and "word_opt prev' \<noteq> is_word (hd w)" and "is_word (last w) \<noteq> word_opt nxt'"
  shows "accepts p prev' w nxt'"
proof -
  from assms(1) obtain body where p: "p = Bnd # body @ [Bnd]" and rep: "list_all is_rep body"
    unfolding pii_like_def by blast
  from pii_acc [OF assms(1,2)] have ne: "w \<noteq> []" unfolding clean_word_def by blast
  from assms(2) have a: "accepts body prev w nxt" unfolding p pii_acc_iff [OF rep] by auto
  have a': "accepts body prev' w nxt'" using acc_rep_ctx [OF rep a] .
  from ne have f: "first_of w nxt' = Some (hd w)" by (cases w) (simp_all add: first_of_def)
  have b1: "word_opt prev' \<noteq> word_opt (first_of w nxt')" using assms(3) f by (simp add: word_opt_def)
  have b2: "word_opt (ctx_after prev' w) \<noteq> word_opt nxt'"
    using assms(4) ne by (simp add: ctx_after_def word_opt_def)
  show ?thesis unfolding p pii_acc_iff [OF rep] using b1 a' b2 by blast
qed

section \<open>Facts about substitution\<close>

text \<open>A match of a pattern of the shared shape is a clean word between two boundaries.\<close>

lemma pii_rmatch:
  assumes "pii_like p" and "rmatch p prev s = Some n"
  shows "0 < n \<and> n \<le> length s \<and> clean_word (take n s) \<and>
         word_opt prev \<noteq> word_opt (first_char s) \<and>
         is_word (last (take n s)) \<noteq> word_opt (first_char (drop n s))"
proof -
  from rmatch_sound [OF assms(2)] have n: "n \<le> length s"
    and a: "accepts p prev (take n s) (first_char (drop n s))" by auto
  from pii_acc [OF assms(1) a] have c: "clean_word (take n s)"
    and b1: "word_opt prev \<noteq> is_word (hd (take n s))"
    and b2: "is_word (last (take n s)) \<noteq> word_opt (first_char (drop n s))" by auto
  from c have ne: "take n s \<noteq> []" unfolding clean_word_def by blast
  then have pos: "0 < n" by auto
  from ne obtain x xs where s: "s = x # xs" by (cases s) auto
  from pos have "hd (take n s) = x" unfolding s by (cases n) auto
  then have "word_opt (first_char s) = is_word (hd (take n s))"
    by (simp add: s first_char_def word_opt_def)
  with b1 have "word_opt prev \<noteq> word_opt (first_char s)" by simp
  with pos n c b2 show ?thesis by blast
qed

lemma pii_match_positive: "pii_like p \<Longrightarrow> rmatch p prev s \<noteq> Some 0"
  using pii_rmatch [of p prev s 0] by auto

lemma match_free_sub: "match_free p prev s \<Longrightarrow> py_sub p repl prev s = s"
  by (induction s arbitrary: prev) simp_all

lemma match_free_finditer: "match_free p prev s \<Longrightarrow> finditer p pos prev s = []"
  by (induction s arbitrary: prev pos) simp_all

lemma finditer_match_free: "pii_like p \<Longrightarrow> finditer p pos prev s = [] \<Longrightarrow> match_free p prev s"
proof (induction s arbitrary: prev pos)
  case Nil
  then show ?case by simp
next
  case (Cons c cs)
  show ?case
  proof (cases "rmatch p prev (c # cs)")
    case None
    with Cons.prems(2) have "finditer p (pos + 1) (Some c) cs = []" by simp
    from Cons.IH [OF Cons.prems(1) this] show ?thesis using None by simp
  next
    case (Some n)
    with pii_match_positive [OF Cons.prems(1), of prev "c # cs"] obtain m where "n = Suc m"
      by (cases n) auto
    with Some Cons.prems(2) show ?thesis by simp
  qed
qed

lemma match_free_drop: "match_free p prev s \<Longrightarrow> match_free p (ctx_after prev (take k s)) (drop k s)"
proof (induction s arbitrary: prev k)
  case Nil
  then show ?case by simp
next
  case (Cons c cs)
  show ?case
  proof (cases k)
    case 0
    then show ?thesis using Cons.prems by (simp add: ctx_after_def)
  next
    case (Suc k')
    from Cons.prems have "match_free p (Some c) cs" by simp
    from Cons.IH [OF this, of k'] have "match_free p (ctx_after (Some c) (take k' cs)) (drop k' cs)" .
    moreover have "ctx_after prev (take k (c # cs)) = ctx_after (Some c) (take k' cs)"
      unfolding Suc by (simp add: ctx_after_def)
    ultimately show ?thesis unfolding Suc by simp
  qed
qed

lemma no_match_at_bracket:
  assumes "pii_like q" and "c = CHR ''['' \<or> c = CHR '']''"
  shows "rmatch q prev (c # s) = None"
proof (cases "rmatch q prev (c # s)")
  case None
  then show ?thesis .
next
  case (Some n)
  from pii_rmatch [OF assms(1) Some] have pos: "0 < n" and cw: "clean_word (take n (c # s))" by auto
  from pos have "c \<in> set (take n (c # s))" by (cases n) auto
  with cw assms(2) show ?thesis unfolding clean_word_def by blast
qed

lemma take_stops:
  "y \<notin> set (take n (u @ y # v)) \<Longrightarrow> n \<le> length u"
proof (rule ccontr)
  assume a: "y \<notin> set (take n (u @ y # v))" and "\<not> n \<le> length u"
  then have "length u < n" by simp
  then have "take n (u @ y # v) = u @ take (n - length u) (y # v)" by simp
  moreover from \<open>length u < n\<close> obtain m where "n - length u = Suc m" by (cases "n - length u") auto
  ultimately have "y \<in> set (take n (u @ y # v))" by simp
  with a show False by simp
qed

lemma match_free_inside:
  assumes "pii_like q" and "match_free q (Some CHR '']'') t"
  shows "\<forall>c \<in> set a. c \<noteq> CHR ''@'' \<and> \<not> is_digit c \<Longrightarrow> match_free q prev (a @ CHR '']'' # t)"
proof (induction a arbitrary: prev)
  case Nil
  show ?case using no_match_at_bracket [OF assms(1), of "CHR '']''" prev t] assms(2) by simp
next
  case (Cons x a)
  have "rmatch q prev (x # a @ CHR '']'' # t) = None"
  proof (cases "rmatch q prev (x # a @ CHR '']'' # t)")
    case None
    then show ?thesis .
  next
    case (Some n)
    from pii_rmatch [OF assms(1) Some] have cw: "clean_word (take n (x # a @ CHR '']'' # t))" by auto
    then have "CHR '']'' \<notin> set (take n ((x # a) @ CHR '']'' # t))" unfolding clean_word_def by simp
    then have "n \<le> length (x # a)" by (rule take_stops)
    then have "take n (x # a @ CHR '']'' # t) = take n (x # a)" by (cases n) auto
    with cw have "clean_word (take n (x # a))" by simp
    then obtain c where "c \<in> set (take n (x # a))" "c = CHR ''@'' \<or> is_digit c"
      unfolding clean_word_def by blast
    then have "c \<in> set (x # a)" "c = CHR ''@'' \<or> is_digit c" using in_set_takeD by fast+
    with Cons.prems show ?thesis by blast
  qed
  moreover have "match_free q (Some x) (a @ CHR '']'' # t)"
    using Cons.IH Cons.prems by simp
  ultimately show ?case by simp
qed

lemma match_free_placeholder:
  assumes "pii_like q" and "placeholder_like repl" and "match_free q (Some CHR '']'') t"
  shows "match_free q prev (repl @ t)"
proof -
  from assms(2) obtain mid where r: "repl = CHR ''['' # mid @ [CHR '']'']"
    and mid: "\<forall>c \<in> set mid. c \<noteq> CHR ''@'' \<and> \<not> is_digit c"
    unfolding placeholder_like_def by blast
  have "rmatch q prev (CHR ''['' # mid @ CHR '']'' # t) = None"
    by (rule no_match_at_bracket [OF assms(1)]) simp
  moreover have "match_free q (Some CHR ''['') (mid @ CHR '']'' # t)"
    using match_free_inside [OF assms(1,3) mid] .
  ultimately show ?thesis unfolding r by simp
qed

lemma sub_prefix:
  assumes "repl = CHR ''['' # rest"
  shows "k \<le> length (py_sub p repl prev s) \<Longrightarrow> CHR ''['' \<notin> set (take k (py_sub p repl prev s)) \<Longrightarrow>
     k \<le> length s \<and> take k s = take k (py_sub p repl prev s) \<and>
     (first_char (drop k (py_sub p repl prev s)) = first_char (drop k s) \<or>
      (first_char (drop k (py_sub p repl prev s)) = Some CHR ''['' \<and>
       rmatch p (ctx_after prev (take k s)) (drop k s) \<noteq> None))"
proof (induction s arbitrary: prev k)
  case Nil
  then show ?case by simp
next
  case (Cons c cs)
  show ?case
  proof (cases "\<exists>n. rmatch p prev (c # cs) = Some (Suc n)")
    case True
    then obtain n where m: "rmatch p prev (c # cs) = Some (Suc n)" by blast
    then have o: "py_sub p repl prev (c # cs) =
        CHR ''['' # rest @ py_sub p repl (Some (last (c # take n cs))) (drop n cs)"
      by (simp add: assms)
    from Cons.prems(2) have "k = 0" unfolding o by (cases k) auto
    then show ?thesis using m o by (simp add: first_char_def ctx_after_def)
  next
    case False
    then have o: "py_sub p repl prev (c # cs) = c # py_sub p repl (Some c) cs"
      by (cases "rmatch p prev (c # cs)") (auto split: nat.splits)
    show ?thesis
    proof (cases k)
      case 0
      then show ?thesis unfolding o by (simp add: first_char_def)
    next
      case (Suc k')
      from Cons.prems have 1: "k' \<le> length (py_sub p repl (Some c) cs)"
        and 2: "CHR ''['' \<notin> set (take k' (py_sub p repl (Some c) cs))"
        unfolding o Suc by auto
      from Cons.IH [OF 1 2] have kl: "k' \<le> length cs"
        and tk: "take k' cs = take k' (py_sub p repl (Some c) cs)"
        and nx: "first_char (drop k' (py_sub p repl (Some c) cs)) = first_char (drop k' cs) \<or>
          (first_char (drop k' (py_sub p repl (Some c) cs)) = Some CHR ''['' \<and>
           rmatch p (ctx_after (Some c) (take k' cs)) (drop k' cs) \<noteq> None)"
        by auto
      have ctx: "ctx_after prev (take k (c # cs)) = ctx_after (Some c) (take k' cs)"
        unfolding Suc by (simp add: ctx_after_def)
      have "k \<le> length (c # cs)" using kl Suc by simp
      moreover have "take k (c # cs) = take k (py_sub p repl prev (c # cs))"
        unfolding o Suc using tk by simp
      moreover have "first_char (drop k (py_sub p repl prev (c # cs))) = first_char (drop k (c # cs)) \<or>
        (first_char (drop k (py_sub p repl prev (c # cs))) = Some CHR ''['' \<and>
         rmatch p (ctx_after prev (take k (c # cs))) (drop k (c # cs)) \<noteq> None)"
        unfolding ctx unfolding o Suc using nx by simp
      ultimately show ?thesis by blast
    qed
  qed
qed

text \<open>
  Substituting a placeholder for the matches of one pattern leaves no match of that
  pattern, and creates no match of another pattern of the same shape. \<open>prev'\<close> is the
  character before the output: the character before the input, or the closing bracket of
  a placeholder just written, in which case a match ended before the input.
\<close>

lemma sub_keeps_free:
  assumes p: "pii_like p" and q: "pii_like q" and r: "placeholder_like repl"
  shows "prev' = prev \<or> (prev' = Some CHR '']'' \<and> word_opt prev \<noteq> word_opt (first_char s)) \<Longrightarrow>
         q = p \<or> match_free q prev s \<Longrightarrow> match_free q prev' (py_sub p repl prev s)"
proof (induction "length s" arbitrary: s prev prev' rule: less_induct)
  case less
  from r obtain mid where repl: "repl = CHR ''['' # mid @ [CHR '']'']"
    unfolding placeholder_like_def by blast
  show ?case
  proof (cases s)
    case Nil
    then show ?thesis by simp
  next
    case (Cons c cs)
    show ?thesis
    proof (cases "rmatch p prev (c # cs)")
      case None
      let ?O' = "py_sub p repl (Some c) cs"
      have o: "py_sub p repl prev s = c # ?O'" unfolding Cons using None by simp
      have qfree: "q = p \<or> match_free q (Some c) cs" using less.prems(2) unfolding Cons by auto
      have tail: "match_free q (Some c) ?O'"
        by (rule less.hyps) (use Cons qfree in auto)
      have head: "rmatch q prev' (c # ?O') = None"
      proof (cases "rmatch q prev' (c # ?O')")
        case None
        then show ?thesis .
      next
        case (Some k)
        let ?O = "py_sub p repl prev s"
        from Some have mk: "rmatch q prev' ?O = Some k" unfolding o .
        from pii_rmatch [OF q mk] have kpos: "0 < k" and kl: "k \<le> length ?O"
          and cw: "clean_word (take k ?O)"
          and b1: "word_opt prev' \<noteq> word_opt (first_char ?O)"
          and b2: "is_word (last (take k ?O)) \<noteq> word_opt (first_char (drop k ?O))" by auto
        from rmatch_sound [OF mk] have a: "accepts q prev' (take k ?O) (first_char (drop k ?O))" by simp
        from cw have nb: "CHR ''['' \<notin> set (take k ?O)" unfolding clean_word_def by blast
        from sub_prefix [OF repl kl nb] have ks: "k \<le> length s" and tk: "take k s = take k ?O"
          and nx: "first_char (drop k ?O) = first_char (drop k s) \<or>
            (first_char (drop k ?O) = Some CHR ''['' \<and>
             rmatch p (ctx_after prev (take k s)) (drop k s) \<noteq> None)" by auto
        from kpos have hdw: "hd (take k ?O) = c" by (cases k) (simp_all add: o)
        have fs1: "word_opt (first_char s) = is_word c"
          unfolding Cons by (simp add: first_char_def word_opt_def)
        have fs2: "word_opt (first_char ?O) = is_word c"
          by (simp add: o first_char_def word_opt_def)
        have s1: "word_opt prev \<noteq> is_word (hd (take k ?O))"
          using less.prems(1) b1 fs1 fs2 hdw by auto
        from cw have wne: "take k s \<noteq> []" unfolding tk clean_word_def by blast
        have s2: "is_word (last (take k ?O)) \<noteq> word_opt (first_char (drop k s))"
        proof -
          from nx show ?thesis
          proof
            assume "first_char (drop k ?O) = first_char (drop k s)"
            with b2 show ?thesis by simp
          next
            assume "first_char (drop k ?O) = Some CHR ''['' \<and>
             rmatch p (ctx_after prev (take k s)) (drop k s) \<noteq> None"
            then obtain n where "rmatch p (ctx_after prev (take k s)) (drop k s) = Some n" by auto
            from pii_rmatch [OF p this]
            have "word_opt (ctx_after prev (take k s)) \<noteq> word_opt (first_char (drop k s))" by simp
            moreover have "ctx_after prev (take k s) = Some (last (take k ?O))"
              using wne unfolding tk by (simp add: ctx_after_def)
            ultimately show ?thesis by (simp add: word_opt_def)
          qed
        qed
        have "accepts q prev (take k ?O) (first_char (drop k s))"
          by (rule pii_acc_transfer [OF q a s1 s2])
        then have "accepts q prev (take k s) (first_char (drop k s))" unfolding tk .
        from rmatch_complete [OF ks this] have m: "rmatch q prev s \<noteq> None" .
        from less.prems(2) show ?thesis
        proof
          assume "q = p"
          with m None show ?thesis unfolding Cons by simp
        next
          assume "match_free q prev s"
          with m show ?thesis unfolding Cons by simp
        qed
      qed
      show ?thesis unfolding o using head tail by simp
    next
      case (Some n)
      with pii_match_positive [OF p, of prev "c # cs"] obtain m where n: "n = Suc m"
        by (cases n) auto
      let ?l = "last (c # take m cs)"
      let ?O' = "py_sub p repl (Some ?l) (drop m cs)"
      have o: "py_sub p repl prev s = repl @ ?O'" unfolding Cons using Some n by simp
      from pii_rmatch [OF p Some]
      have b2: "is_word (last (take n (c # cs))) \<noteq> word_opt (first_char (drop n (c # cs)))" by simp
      then have ctx: "word_opt (Some ?l) \<noteq> word_opt (first_char (drop m cs))"
        unfolding n by (simp add: word_opt_def)
      have qfree: "q = p \<or> match_free q (Some ?l) (drop m cs)"
      proof (cases "q = p")
        case True
        then show ?thesis by simp
      next
        case False
        with less.prems(2) have "match_free q prev s" by simp
        from match_free_drop [OF this, of n] show ?thesis
          unfolding Cons n by (simp add: ctx_after_def)
      qed
      have "match_free q (Some CHR '']'') ?O'"
        by (rule less.hyps) (use Cons ctx qfree in auto)
      then show ?thesis unfolding o by (rule match_free_placeholder [OF q r])
    qed
  qed
qed

section \<open>Facts about the four PII patterns\<close>

lemma class_no_bracket:
  "email_local c \<Longrightarrow> c \<noteq> CHR ''['' \<and> c \<noteq> CHR '']''"
  "email_domain c \<Longrightarrow> c \<noteq> CHR ''['' \<and> c \<noteq> CHR '']''"
  "email_tld c \<Longrightarrow> c \<noteq> CHR ''['' \<and> c \<noteq> CHR '']''"
  "is_digit c \<Longrightarrow> c \<noteq> CHR ''['' \<and> c \<noteq> CHR '']''"
  "phone_sep c \<Longrightarrow> c \<noteq> CHR ''['' \<and> c \<noteq> CHR '']''"
  "card_sep c \<Longrightarrow> c \<noteq> CHR ''['' \<and> c \<noteq> CHR '']''"
  by (auto simp: email_local_def email_domain_def email_tld_def is_digit_def phone_sep_def
      card_sep_def py_isspace_def in_range_def)

lemma pii_like_email: "pii_like email_pattern"
  unfolding pii_like_def
proof (intro exI conjI)
  let ?body = "[Rep email_local 1 None, lit CHR ''@'', Rep email_domain 1 None, lit CHR ''.'',
      Rep email_tld 2 None]"
  show "email_pattern = Bnd # ?body @ [Bnd]" by (simp add: email_pattern_def)
  show "list_all is_rep ?body" by (simp add: lit_def)
  show "\<forall>it \<in> set ?body. \<forall>c. item_has it c \<longrightarrow> c \<noteq> CHR ''['' \<and> c \<noteq> CHR '']''"
    using class_no_bracket by (auto simp: lit_def)
  show "\<exists>it \<in> set ?body. mandatory it \<and> (\<forall>c. item_has it c \<longrightarrow> c = CHR ''@'' \<or> is_digit c)"
    by (rule bexI [of _ "lit CHR ''@''"]) (simp_all add: lit_def)
qed

lemma pii_like_ssn: "pii_like ssn_pattern"
  unfolding pii_like_def
proof (intro exI conjI)
  let ?body = "[Rep is_digit 3 (Some 3), lit CHR ''-'', Rep is_digit 2 (Some 2), lit CHR ''-'',
      Rep is_digit 4 (Some 4)]"
  show "ssn_pattern = Bnd # ?body @ [Bnd]" by (simp add: ssn_pattern_def)
  show "list_all is_rep ?body" by (simp add: lit_def)
  show "\<forall>it \<in> set ?body. \<forall>c. item_has it c \<longrightarrow> c \<noteq> CHR ''['' \<and> c \<noteq> CHR '']''"
    using class_no_bracket by (auto simp: lit_def)
  show "\<exists>it \<in> set ?body. mandatory it \<and> (\<forall>c. item_has it c \<longrightarrow> c = CHR ''@'' \<or> is_digit c)"
    by (rule bexI [of _ "Rep is_digit 3 (Some 3)"]) simp_all
qed

lemma pii_like_phone: "pii_like phone_pattern"
  unfolding pii_like_def
proof (intro exI conjI)
  let ?body = "[Rep is_digit 3 (Some 3), Rep phone_sep 0 (Some 1), Rep is_digit 3 (Some 3),
      Rep phone_sep 0 (Some 1), Rep is_digit 4 (Some 4)]"
  show "phone_pattern = Bnd # ?body @ [Bnd]" by (simp add: phone_pattern_def)
  show "list_all is_rep ?body" by simp
  show "\<forall>it \<in> set ?body. \<forall>c. item_has it c \<longrightarrow> c \<noteq> CHR ''['' \<and> c \<noteq> CHR '']''"
    using class_no_bracket by auto
  show "\<exists>it \<in> set ?body. mandatory it \<and> (\<forall>c. item_has it c \<longrightarrow> c = CHR ''@'' \<or> is_digit c)"
    by (rule bexI [of _ "Rep is_digit 3 (Some 3)"]) simp_all
qed

lemma pii_like_credit_card: "pii_like credit_card_pattern"
  unfolding pii_like_def
proof (intro exI conjI)
  let ?body = "[Rep is_digit 4 (Some 4), Rep card_sep 0 (Some 1), Rep is_digit 4 (Some 4),
      Rep card_sep 0 (Some 1), Rep is_digit 4 (Some 4), Rep card_sep 0 (Some 1),
      Rep is_digit 4 (Some 4)]"
  show "credit_card_pattern = Bnd # ?body @ [Bnd]" by (simp add: credit_card_pattern_def)
  show "list_all is_rep ?body" by simp
  show "\<forall>it \<in> set ?body. \<forall>c. item_has it c \<longrightarrow> c \<noteq> CHR ''['' \<and> c \<noteq> CHR '']''"
    using class_no_bracket by auto
  show "\<exists>it \<in> set ?body. mandatory it \<and> (\<forall>c. item_has it c \<longrightarrow> c = CHR ''@'' \<or> is_digit c)"
    by (rule bexI [of _ "Rep is_digit 4 (Some 4)"]) simp_all
qed

lemma placeholders:
  "placeholder ''email'' = ''[REDACTED-EMAIL]''"
  "placeholder ''ssn'' = ''[REDACTED-SSN]''"
  "placeholder ''phone'' = ''[REDACTED-PHONE]''"
  "placeholder ''credit_card'' = ''[REDACTED-CREDIT_CARD]''"
  by code_simp+

lemma placeholder_like_all:
  "placeholder_like (placeholder ''email'')"
  "placeholder_like (placeholder ''ssn'')"
  "placeholder_like (placeholder ''phone'')"
  "placeholder_like (placeholder ''credit_card'')"
  unfolding placeholders placeholder_like_def
  by (rule exI [of _ "''REDACTED-EMAIL''"], simp add: is_digit_def in_range_def,
      rule exI [of _ "''REDACTED-SSN''"], simp add: is_digit_def in_range_def,
      rule exI [of _ "''REDACTED-PHONE''"], simp add: is_digit_def in_range_def,
      rule exI [of _ "''REDACTED-CREDIT_CARD''"], simp add: is_digit_def in_range_def)

text \<open>The output of \<open>_redact_pii\<close> has no match of any of the four patterns.\<close>

lemma redact_pii_unfold:
  "redact_pii txt =
     py_sub credit_card_pattern (placeholder ''credit_card'') None
       (py_sub phone_pattern (placeholder ''phone'') None
          (py_sub ssn_pattern (placeholder ''ssn'') None
             (py_sub email_pattern (placeholder ''email'') None txt)))"
  by (simp add: redact_pii_def PII_PATTERNS_def)

lemma sub_top:
  "pii_like p \<Longrightarrow> pii_like q \<Longrightarrow> placeholder_like repl \<Longrightarrow> q = p \<or> match_free q None s \<Longrightarrow>
     match_free q None (py_sub p repl None s)"
  using sub_keeps_free [of p q repl None None s] by simp

lemma redact_pii_free:
  "match_free email_pattern None (redact_pii txt)"
  "match_free ssn_pattern None (redact_pii txt)"
  "match_free phone_pattern None (redact_pii txt)"
  "match_free credit_card_pattern None (redact_pii txt)"
proof -
  let ?e = "py_sub email_pattern (placeholder ''email'') None txt"
  let ?s = "py_sub ssn_pattern (placeholder ''ssn'') None ?e"
  let ?p = "py_sub phone_pattern (placeholder ''phone'') None ?s"
  let ?c = "py_sub credit_card_pattern (placeholder ''credit_card'') None ?p"
  note pl = pii_like_email pii_like_ssn pii_like_phone pii_like_credit_card
  note ph = placeholder_like_all
  have e1: "match_free email_pattern None ?e" by (rule sub_top) (simp_all add: pl ph)
  have e2: "match_free email_pattern None ?s" by (rule sub_top) (simp_all add: pl ph e1)
  have e3: "match_free email_pattern None ?p" by (rule sub_top) (simp_all add: pl ph e2)
  have s2: "match_free ssn_pattern None ?s" by (rule sub_top) (simp_all add: pl ph)
  have s3: "match_free ssn_pattern None ?p" by (rule sub_top) (simp_all add: pl ph s2)
  have p3: "match_free phone_pattern None ?p" by (rule sub_top) (simp_all add: pl ph)
  show "match_free email_pattern None (redact_pii txt)"
    unfolding redact_pii_unfold by (rule sub_top) (simp_all add: pl ph e3)
  show "match_free ssn_pattern None (redact_pii txt)"
    unfolding redact_pii_unfold by (rule sub_top) (simp_all add: pl ph s3)
  show "match_free phone_pattern None (redact_pii txt)"
    unfolding redact_pii_unfold by (rule sub_top) (simp_all add: pl ph p3)
  show "match_free credit_card_pattern None (redact_pii txt)"
    unfolding redact_pii_unfold by (rule sub_top) (simp_all add: pl ph)
qed

lemma detect_pii_empty_iff:
  "detect_pii txt = [] \<longleftrightarrow>
     match_free email_pattern None txt \<and> match_free ssn_pattern None txt \<and>
     match_free phone_pattern None txt \<and> match_free credit_card_pattern None txt"
proof -
  have "detect_pii txt = [] \<longleftrightarrow>
      finditer email_pattern 0 None txt = [] \<and> finditer ssn_pattern 0 None txt = [] \<and>
      finditer phone_pattern 0 None txt = [] \<and> finditer credit_card_pattern 0 None txt = []"
    by (simp add: detect_pii_def PII_PATTERNS_def)
  also have "\<dots> \<longleftrightarrow> match_free email_pattern None txt \<and> match_free ssn_pattern None txt \<and>
     match_free phone_pattern None txt \<and> match_free credit_card_pattern None txt"
    using finditer_match_free [OF pii_like_email, of 0 None "txt"]
      finditer_match_free [OF pii_like_ssn, of 0 None "txt"]
      finditer_match_free [OF pii_like_phone, of 0 None "txt"]
      finditer_match_free [OF pii_like_credit_card, of 0 None "txt"]
      match_free_finditer [of email_pattern None "txt" 0]
      match_free_finditer [of ssn_pattern None "txt" 0]
      match_free_finditer [of phone_pattern None "txt" 0]
      match_free_finditer [of credit_card_pattern None "txt" 0]
    by blast
  finally show ?thesis .
qed

lemma detect_pii_redact: "detect_pii (redact_pii txt) = []"
  unfolding detect_pii_empty_iff using redact_pii_free by blast

lemma redact_pii_no_pii: "detect_pii txt = [] \<Longrightarrow> redact_pii txt = txt"
  unfolding detect_pii_empty_iff redact_pii_unfold by (simp add: match_free_sub)

lemma redact_pii_idem: "redact_pii (redact_pii txt) = redact_pii txt"
  by (rule redact_pii_no_pii) (rule detect_pii_redact)


section \<open>C1: the documents retrieved for a positive \<open>top_k\<close>\<close>

text \<open>
  Claim C1. For every query and list of documents there is a ranking: the documents with
  a positive score, each with its score, in descending order of score, documents with
  equal scores in the order of the document store. For every positive \<open>top_k\<close>, \<open>search\<close>
  returns the first \<open>top_k\<close> entries of the ranking, so at most \<open>top_k\<close> entries. This holds
  for the basic pipeline, and for the compliance pipeline with the query it scores with.
\<close>

theorem search_ranked:
  "(\<exists>r. ranked q ds r \<and>
      (\<forall>top_k. 0 < top_k \<longrightarrow>
         simple_search ds q top_k = take (nat top_k) r \<and>
         length (simple_search ds q top_k) \<le> nat top_k)) \<and>
   (\<exists>r. ranked (effective_query q) (documents self) r \<and>
      (\<forall>top_k. 0 < top_k \<longrightarrow>
         fst (search utcnow self q top_k) = take (nat top_k) r \<and>
         length (fst (search utcnow self q top_k)) \<le> nat top_k))"
proof
  have "ranked q ds (ranking q ds)" by (rule ranked_ranking)
  moreover have "\<forall>top_k. 0 < top_k \<longrightarrow>
         simple_search ds q top_k = take (nat top_k) (ranking q ds) \<and>
         length (simple_search ds q top_k) \<le> nat top_k"
    by (simp add: simple_search_ranking py_slice_to_pos)
  ultimately show "\<exists>r. ranked q ds r \<and>
      (\<forall>top_k. 0 < top_k \<longrightarrow>
         simple_search ds q top_k = take (nat top_k) r \<and>
         length (simple_search ds q top_k) \<le> nat top_k)"
    by blast
next
  let ?r = "ranking (effective_query q) (documents self)"
  have "ranked (effective_query q) (documents self) ?r" by (rule ranked_ranking)
  moreover have "\<forall>top_k. 0 < top_k \<longrightarrow>
         fst (search utcnow self q top_k) = take (nat top_k) ?r \<and>
         length (fst (search utcnow self q top_k)) \<le> nat top_k"
    by (simp add: search_ranking py_slice_to_pos)
  ultimately show "\<exists>r. ranked (effective_query q) (documents self) r \<and>
      (\<forall>top_k. 0 < top_k \<longrightarrow>
         fst (search utcnow self q top_k) = take (nat top_k) r \<and>
         length (fst (search utcnow self q top_k)) \<le> nat top_k)"
    by blast
qed

lemma demo_search: "simple_search demo_documents ''Trip'' 2 =
     [\<lparr>doc = \<lparr>doc_id = 4, title = ''Calendar'', content = ''trip TRIP trip''\<rparr>, score = 3\<rparr>,
      \<lparr>doc = \<lparr>doc_id = 1, title = ''Leave'', content = ''Trip plan, trip cost''\<rparr>, score = 2\<rparr>]"
  by code_simp

theorem search_ranked_witness:
  "(0::int) < 2 \<and>
   (\<exists>r. ranked ''Trip'' demo_documents r \<and>
      simple_search demo_documents ''Trip'' 2 = take (nat 2) r \<and>
      take (nat 2) r =
        [\<lparr>doc = \<lparr>doc_id = 4, title = ''Calendar'', content = ''trip TRIP trip''\<rparr>,
          score = 3\<rparr>,
         \<lparr>doc = \<lparr>doc_id = 1, title = ''Leave'', content = ''Trip plan, trip cost''\<rparr>,
          score = 2\<rparr>]) \<and>
   (\<exists>r. ranked (effective_query ''Trip'') (documents demo_loaded) r \<and>
      fst (search demo_clock demo_loaded ''Trip'' 2) = take (nat 2) r)"
proof -
  have pos: "(0::int) < 2" by simp
  from search_ranked [where q = "''Trip''" and ds = demo_documents
      and self = demo_loaded and utcnow = demo_clock]
  obtain r r' where r: "ranked ''Trip'' demo_documents r"
      "\<forall>top_k. 0 < top_k \<longrightarrow> simple_search demo_documents ''Trip'' top_k = take (nat top_k) r"
    and r': "ranked (effective_query ''Trip'') (documents demo_loaded) r'"
      "\<forall>top_k. 0 < top_k \<longrightarrow> fst (search demo_clock demo_loaded ''Trip'' top_k) = take (nat top_k) r'"
    by blast
  from r(2) pos have 1: "simple_search demo_documents ''Trip'' 2 = take (nat 2) r" by blast
  from r'(2) pos have 2: "fst (search demo_clock demo_loaded ''Trip'' 2) = take (nat 2) r'" by blast
  from 1 demo_search have 3: "take (nat 2) r =
        [\<lparr>doc = \<lparr>doc_id = 4, title = ''Calendar'', content = ''trip TRIP trip''\<rparr>,
          score = 3\<rparr>,
         \<lparr>doc = \<lparr>doc_id = 1, title = ''Leave'', content = ''Trip plan, trip cost''\<rparr>,
          score = 2\<rparr>]" by simp
  from pos r(1) 1 3 r'(1) 2 show ?thesis by blast
qed

section \<open>C2: the keyword score\<close>




section \<open>C3: falling back to the sample documents\<close>




section \<open>C4: \<open>top_k\<close> zero or negative\<close>

text \<open>
  Claim C4, as the code has it. For \<open>top_k = 0\<close> \<open>search\<close> returns the empty list. For a
  negative \<open>top_k\<close> the slice \<open>scored_docs[:top_k]\<close> drops the last \<open>- top_k\<close> entries of the
  ranking and returns the rest, in both pipelines.
\<close>

theorem search_nonpositive_top_k:
  "(\<exists>r. ranked q ds r \<and> simple_search ds q 0 = [] \<and>
      (\<forall>top_k. top_k < 0 \<longrightarrow>
         simple_search ds q top_k = take (length r - nat (- top_k)) r)) \<and>
   (\<exists>r. ranked (effective_query q) (documents self) r \<and> fst (search utcnow self q 0) = [] \<and>
      (\<forall>top_k. top_k < 0 \<longrightarrow>
         fst (search utcnow self q top_k) = take (length r - nat (- top_k)) r))"
proof
  have "ranked q ds (ranking q ds)" by (rule ranked_ranking)
  moreover have "simple_search ds q 0 = []"
    by (simp add: simple_search_ranking py_slice_to_zero)
  moreover have "\<forall>top_k. top_k < 0 \<longrightarrow>
         simple_search ds q top_k = take (length (ranking q ds) - nat (- top_k)) (ranking q ds)"
    by (simp add: simple_search_ranking py_slice_to_neg)
  ultimately show "\<exists>r. ranked q ds r \<and> simple_search ds q 0 = [] \<and>
      (\<forall>top_k. top_k < 0 \<longrightarrow>
         simple_search ds q top_k = take (length r - nat (- top_k)) r)"
    by blast
next
  let ?r = "ranking (effective_query q) (documents self)"
  have "ranked (effective_query q) (documents self) ?r" by (rule ranked_ranking)
  moreover have "fst (search utcnow self q 0) = []"
    by (simp add: search_ranking py_slice_to_zero)
  moreover have "\<forall>top_k. top_k < 0 \<longrightarrow>
         fst (search utcnow self q top_k) = take (length ?r - nat (- top_k)) ?r"
    by (simp add: search_ranking py_slice_to_neg)
  ultimately show "\<exists>r. ranked (effective_query q) (documents self) r \<and>
      fst (search utcnow self q 0) = [] \<and>
      (\<forall>top_k. top_k < 0 \<longrightarrow>
         fst (search utcnow self q top_k) = take (length r - nat (- top_k)) r)"
    by blast
qed

theorem search_nonpositive_top_k_witness:
  "(- 1 :: int) < 0 \<and>
   (\<exists>r. ranked ''Trip'' demo_documents r \<and>
      simple_search demo_documents ''Trip'' 0 = [] \<and>
      simple_search demo_documents ''Trip'' (- 1) = take (length r - nat (- (- 1))) r) \<and>
   (\<exists>r. ranked (effective_query ''Trip'') (documents demo_loaded) r \<and>
      fst (search demo_clock demo_loaded ''Trip'' (- 1)) = take (length r - nat (- (- 1))) r)"
proof -
  have neg: "(- 1 :: int) < 0" by simp
  from search_nonpositive_top_k [where q = "''Trip''" and ds = demo_documents
      and self = demo_loaded and utcnow = demo_clock]
  obtain r r' where r: "ranked ''Trip'' demo_documents r"
      "simple_search demo_documents ''Trip'' 0 = []"
      "\<forall>top_k. top_k < 0 \<longrightarrow>
         simple_search demo_documents ''Trip'' top_k = take (length r - nat (- top_k)) r"
    and r': "ranked (effective_query ''Trip'') (documents demo_loaded) r'"
      "\<forall>top_k. top_k < 0 \<longrightarrow>
         fst (search demo_clock demo_loaded ''Trip'' top_k) = take (length r' - nat (- top_k)) r'"
    by blast
  from r(3) neg have 1: "simple_search demo_documents ''Trip'' (- 1) = take (length r - nat (- (- 1))) r"
    by blast
  from r'(2) neg have 2: "fst (search demo_clock demo_loaded ''Trip'' (- 1)) = take (length r' - nat (- (- 1))) r'"
    by blast
  from neg r(1) r(2) 1 r'(1) 2 show ?thesis by blast
qed

text \<open>
  The claim as stated fails for a negative \<open>top_k\<close>: three of the example documents match,
  and \<open>top_k = -1\<close> returns the first two of them.
\<close>

theorem search_negative_top_k_counterexample:
  "simple_search demo_documents ''Trip'' (- 1) =
     [\<lparr>doc = \<lparr>doc_id = 4, title = ''Calendar'', content = ''trip TRIP trip''\<rparr>, score = 3\<rparr>,
      \<lparr>doc = \<lparr>doc_id = 1, title = ''Leave'', content = ''Trip plan, trip cost''\<rparr>, score = 2\<rparr>]
   \<and> simple_search demo_documents ''Trip'' (- 1) \<noteq> []"
  by code_simp

section \<open>C5: redaction is idempotent\<close>

text \<open>
  Claim C5. \<open>_redact_pii\<close> substitutes the placeholder \<open>[REDACTED-<TYPE>]\<close> for the matches
  of the four patterns, one pattern after the other in the order email, ssn, phone,
  credit_card, each on the output of the one before. Redacting twice gives what redacting
  once gives: in the redacted text no pattern has a match, so nothing is detected in it,
  and no pattern matches in a placeholder.
\<close>

theorem redact_pii_idempotent:
  "redact_pii txt =
     py_sub credit_card_pattern ''[REDACTED-CREDIT_CARD]'' None
       (py_sub phone_pattern ''[REDACTED-PHONE]'' None
          (py_sub ssn_pattern ''[REDACTED-SSN]'' None
             (py_sub email_pattern ''[REDACTED-EMAIL]'' None txt))) \<and>
   redact_pii (redact_pii txt) = redact_pii txt \<and>
   detect_pii (redact_pii txt) = [] \<and>
   list_all (\<lambda>(ptype, pattern). finditer pattern 0 None (redact_pii txt) = []) PII_PATTERNS \<and>
   list_all (\<lambda>(ptype, pattern). detect_pii (placeholder ptype) = []) PII_PATTERNS"
proof (intro conjI)
  show "redact_pii txt =
     py_sub credit_card_pattern ''[REDACTED-CREDIT_CARD]'' None
       (py_sub phone_pattern ''[REDACTED-PHONE]'' None
          (py_sub ssn_pattern ''[REDACTED-SSN]'' None
             (py_sub email_pattern ''[REDACTED-EMAIL]'' None txt)))"
    using redact_pii_unfold [of "txt"] unfolding placeholders .
  show "redact_pii (redact_pii txt) = redact_pii txt" by (rule redact_pii_idem)
  show "detect_pii (redact_pii txt) = []" by (rule detect_pii_redact)
  show "list_all (\<lambda>(ptype, pattern). finditer pattern 0 None (redact_pii txt) = []) PII_PATTERNS"
    using redact_pii_free [of "txt"] by (simp add: PII_PATTERNS_def match_free_finditer)
  have "detect_pii ''[REDACTED-EMAIL]'' = []" "detect_pii ''[REDACTED-SSN]'' = []"
    "detect_pii ''[REDACTED-PHONE]'' = []" "detect_pii ''[REDACTED-CREDIT_CARD]'' = []"
    by code_simp+
  then show "list_all (\<lambda>(ptype, pattern). detect_pii (placeholder ptype) = []) PII_PATTERNS"
    by (simp add: PII_PATTERNS_def placeholders)
qed

lemma demo_redact:
  "redact_pii ''Contact me at john@example.com or 555-123-4567'' =
     ''Contact me at [REDACTED-EMAIL] or [REDACTED-PHONE]''"
  by code_simp

theorem redact_pii_idempotent_witness:
  "redact_pii (redact_pii ''Contact me at john@example.com or 555-123-4567'') =
     ''Contact me at [REDACTED-EMAIL] or [REDACTED-PHONE]'' \<and>
   detect_pii ''Contact me at [REDACTED-EMAIL] or [REDACTED-PHONE]'' = []"
proof -
  note t = redact_pii_idempotent [of "''Contact me at john@example.com or 555-123-4567''"]
  from t have 1: "redact_pii (redact_pii ''Contact me at john@example.com or 555-123-4567'') =
      redact_pii ''Contact me at john@example.com or 555-123-4567''" by blast
  from t have 2: "detect_pii (redact_pii ''Contact me at john@example.com or 555-123-4567'') = []"
    by blast
  from 1 have 3: "redact_pii ''Contact me at [REDACTED-EMAIL] or [REDACTED-PHONE]'' =
      ''Contact me at [REDACTED-EMAIL] or [REDACTED-PHONE]''" by (simp only: demo_redact)
  from 2 have 4: "detect_pii ''Contact me at [REDACTED-EMAIL] or [REDACTED-PHONE]'' = []"
    by (simp only: demo_redact)
  have 5: "redact_pii (redact_pii ''Contact me at john@example.com or 555-123-4567'') =
     ''Contact me at [REDACTED-EMAIL] or [REDACTED-PHONE]''"
    by (simp only: demo_redact 3)
  from 5 4 show ?thesis by (rule conjI)
qed

section \<open>C6: the most restrictive classification wins\<close>

text \<open>
  Claim C6. For a non-empty list of contributing documents, the classification of the
  answer is the classification of one of them, and none of them has a higher level in the
  order PUBLIC < INTERNAL < CONFIDENTIAL < RESTRICTED: it is the maximum. An answer from a
  PUBLIC and a CONFIDENTIAL document, in either order, is CONFIDENTIAL.
\<close>

theorem overall_classification_is_maximum:
  "(context_docs \<noteq> [] \<longrightarrow>
     (let c = overall_classification (fst (generate_answer utcnow self q context_docs)) in
        (\<exists>d \<in> set context_docs. c = classification (doc d)) \<and>
        (\<forall>d \<in> set context_docs. level (classification (doc d)) \<le> level c))) \<and>
   level ''PUBLIC'' < level ''INTERNAL'' \<and> level ''INTERNAL'' < level ''CONFIDENTIAL'' \<and>
   level ''CONFIDENTIAL'' < level ''RESTRICTED'' \<and>
   (classification (doc d1) = ''PUBLIC'' \<and> classification (doc d2) = ''CONFIDENTIAL'' \<longrightarrow>
      overall_classification (fst (generate_answer utcnow self q [d1, d2])) = ''CONFIDENTIAL'' \<and>
      overall_classification (fst (generate_answer utcnow self q [d2, d1])) = ''CONFIDENTIAL'')"
proof (intro conjI)
  show "context_docs \<noteq> [] \<longrightarrow>
     (let c = overall_classification (fst (generate_answer utcnow self q context_docs)) in
        (\<exists>d \<in> set context_docs. c = classification (doc d)) \<and>
        (\<forall>d \<in> set context_docs. level (classification (doc d)) \<le> level c))"
  proof
    assume "context_docs \<noteq> []"
    then obtain d ds where ds: "context_docs = d # ds" by (cases context_docs) auto
    let ?cs = "map (\<lambda>d. classification (doc d)) ds"
    let ?c = "py_max_key level (classification (doc d)) ?cs"
    have "?c \<in> set (classification (doc d) # ?cs)" by (rule py_max_key_mem)
    then have mem: "\<exists>e \<in> set (d # ds). ?c = classification (doc e)" by auto
    have ge: "\<forall>e \<in> set (d # ds). level (classification (doc e)) \<le> level ?c"
    proof
      fix e assume "e \<in> set (d # ds)"
      then consider "e = d" | "e \<in> set ds" by auto
      then show "level (classification (doc e)) \<le> level ?c"
      proof cases
        case 1
        then show ?thesis using py_max_key_best [of level "classification (doc d)" ?cs] by simp
      next
        case 2
        then have "classification (doc e) \<in> set ?cs" by simp
        then show ?thesis by (rule py_max_key_ge)
      qed
    qed
    show "let c = overall_classification (fst (generate_answer utcnow self q context_docs)) in
        (\<exists>d \<in> set context_docs. c = classification (doc d)) \<and>
        (\<forall>d \<in> set context_docs. level (classification (doc d)) \<le> level c)"
      unfolding ds overall_nonempty Let_def using mem ge by blast
  qed
next
  show "level ''PUBLIC'' < level ''INTERNAL''" by (simp add: level_values)
next
  show "level ''INTERNAL'' < level ''CONFIDENTIAL''" by (simp add: level_values)
next
  show "level ''CONFIDENTIAL'' < level ''RESTRICTED''" by (simp add: level_values)
next
  show "classification (doc d1) = ''PUBLIC'' \<and> classification (doc d2) = ''CONFIDENTIAL'' \<longrightarrow>
      overall_classification (fst (generate_answer utcnow self q [d1, d2])) = ''CONFIDENTIAL'' \<and>
      overall_classification (fst (generate_answer utcnow self q [d2, d1])) = ''CONFIDENTIAL''"
    by (simp add: overall_nonempty level_values)
qed

theorem overall_classification_is_maximum_witness:
  "overall_classification (fst (generate_answer (\<lambda>n. ''t'')
      \<lparr>user_id = ''u'', audit_log = [], documents = []\<rparr> ''q''
      [\<lparr>doc = \<lparr>doc_id = ''A'', title = ''a'', content = ''x'', classification = ''PUBLIC'',
               category = ''c'', requires_authorization = False\<rparr>, score = 2\<rparr>,
       \<lparr>doc = \<lparr>doc_id = ''B'', title = ''b'', content = ''y'', classification = ''CONFIDENTIAL'',
               category = ''c'', requires_authorization = True\<rparr>, score = 1\<rparr>]))
   = ''CONFIDENTIAL''"
  using overall_classification_is_maximum
    [of "[\<lparr>doc = \<lparr>doc_id = ''A'', title = ''a'', content = ''x'', classification = ''PUBLIC'',
               category = ''c'', requires_authorization = False\<rparr>, score = 2\<rparr>,
       \<lparr>doc = \<lparr>doc_id = ''B'', title = ''b'', content = ''y'', classification = ''CONFIDENTIAL'',
               category = ''c'', requires_authorization = True\<rparr>, score = 1\<rparr>]"
        "\<lambda>n. ''t''" "\<lparr>user_id = ''u'', audit_log = [], documents = []\<rparr>" "''q''"
        "\<lparr>doc = \<lparr>doc_id = ''A'', title = ''a'', content = ''x'', classification = ''PUBLIC'',
               category = ''c'', requires_authorization = False\<rparr>, score = 2\<rparr>"
        "\<lparr>doc = \<lparr>doc_id = ''B'', title = ''b'', content = ''y'', classification = ''CONFIDENTIAL'',
               category = ''c'', requires_authorization = True\<rparr>, score = 1\<rparr>"]
  by simp

section \<open>C7: classification by keyword precedence\<close>



section \<open>C8: the result of a query\<close>

text \<open>
  Claim C8, as the code has it. The result of \<open>query\<close> always carries the question. When
  retrieval returns at least one document, it carries a redacted answer, the flag
  \<open>pii_detected\<close> computed from the answer, and one citation for each retrieved document.
  When retrieval returns no document, the answer is the fixed message, there is no
  citation, \<open>pii_detected\<close> is false, the classification is PUBLIC, and the result has no
  key \<open>redacted_answer\<close>.
\<close>

theorem query_result_fields:
  "question (fst (query utcnow self q top_k)) = q \<and>
   (fst (search utcnow self q top_k) \<noteq> [] \<longrightarrow>
      (\<exists>t. redacted_answer (fst (query utcnow self q top_k)) = Some t) \<and>
      pii_detected (fst (query utcnow self q top_k)) =
        (detect_pii (answer (fst (query utcnow self q top_k))) \<noteq> []) \<and>
      map document_id (citations (fst (query utcnow self q top_k))) =
        map (\<lambda>d. doc_id (doc d)) (fst (search utcnow self q top_k))) \<and>
   (fst (search utcnow self q top_k) = [] \<longrightarrow>
      answer (fst (query utcnow self q top_k)) = ''No relevant information found.'' \<and>
      citations (fst (query utcnow self q top_k)) = [] \<and>
      pii_detected (fst (query utcnow self q top_k)) = False \<and>
      overall_classification (fst (query utcnow self q top_k)) = ''PUBLIC'' \<and>
      redacted_answer (fst (query utcnow self q top_k)) = None)"
proof (intro conjI impI)
  show "question (fst (query utcnow self q top_k)) = q"
    by (simp add: fst_query Let_def)
next
  assume ne: "fst (search utcnow self q top_k) \<noteq> []"
  note ga = generate_answer_nonempty [OF ne, of utcnow "snd (search utcnow self q top_k)" q]
  show "\<exists>t. redacted_answer (fst (query utcnow self q top_k)) = Some t"
    using ga by (simp add: fst_query Let_def)
  show "pii_detected (fst (query utcnow self q top_k)) =
        (detect_pii (answer (fst (query utcnow self q top_k))) \<noteq> [])"
    using ga by (simp add: fst_query Let_def)
  show "map document_id (citations (fst (query utcnow self q top_k))) =
        map (\<lambda>d. doc_id (doc d)) (fst (search utcnow self q top_k))"
    using ga by (simp add: fst_query Let_def)
next
  assume e: "fst (search utcnow self q top_k) = []"
  show "answer (fst (query utcnow self q top_k)) = ''No relevant information found.''"
    by (simp add: fst_query Let_def e generate_answer_empty)
  show "citations (fst (query utcnow self q top_k)) = []"
    by (simp add: fst_query Let_def e generate_answer_empty)
  show "pii_detected (fst (query utcnow self q top_k)) = False"
    by (simp add: fst_query Let_def e generate_answer_empty)
  show "overall_classification (fst (query utcnow self q top_k)) = ''PUBLIC''"
    by (simp add: fst_query Let_def e generate_answer_empty)
  show "redacted_answer (fst (query utcnow self q top_k)) = None"
    by (simp add: fst_query Let_def e generate_answer_empty)
qed

theorem query_result_fields_witness:
  "(\<exists>t. redacted_answer (fst (query demo_clock demo_pipeline ''trip'' 3)) = Some t) \<and>
   redacted_answer (fst (query demo_clock demo_pipeline ''wage'' 3)) = None \<and>
   answer (fst (query demo_clock demo_pipeline ''wage'' 3)) = ''No relevant information found.''"
proof -
  have 1: "fst (search demo_clock demo_pipeline ''trip'' 3) \<noteq> []"
    by code_simp
  have 2: "fst (search demo_clock demo_pipeline ''wage'' 3) = []"
    by code_simp
  show ?thesis
    using 1 2 query_result_fields [of demo_clock demo_pipeline "''trip''" 3]
      query_result_fields [of demo_clock demo_pipeline "''wage''" 3]
    by blast
qed

text \<open>
  The claim as stated fails when retrieval returns no document: the dictionary returned
  then has no key \<open>redacted_answer\<close>.
\<close>

theorem query_no_redacted_answer_counterexample:
  "fst (search demo_clock demo_pipeline ''wage'' 3) = [] \<and>
   redacted_answer (fst (query demo_clock demo_pipeline ''wage'' 3)) = None"
  by code_simp

section \<open>C9: PII in a query does not influence retrieval\<close>





section \<open>C10: the audit log is append-only\<close>

text \<open>
  Claim C10. Construction leaves a log of one entry, \<open>SYSTEM_INIT\<close>. After \<open>search\<close>,
  \<open>generate_answer\<close> and \<open>query\<close> the log before the call is a prefix of the log after it:
  entries are added at the end, and none is changed or removed. \<open>get_audit_log\<close> and
  \<open>export_audit_log\<close> leave the log as it is.
\<close>

theorem audit_log_append_only:
  "(init utcnow py_title documents_path uid = Inr p \<longrightarrow>
      (\<exists>e. audit_log p = [e] \<and> action e = ''SYSTEM_INIT'')) \<and>
   prefix (audit_log self) (audit_log (snd (search utcnow self q top_k))) \<and>
   prefix (audit_log self) (audit_log (snd (generate_answer utcnow self q context_docs))) \<and>
   prefix (audit_log self) (audit_log (snd (query utcnow self q top_k))) \<and>
   audit_log (snd (get_audit_log self)) = audit_log self \<and>
   audit_log (snd (export_audit_log writable self)) = audit_log self"
proof (intro conjI impI)
  assume "init utcnow py_title documents_path uid = Inr p"
  then show "\<exists>e. audit_log p = [e] \<and> action e = ''SYSTEM_INIT''"
    using init_log by fastforce
next
  show "prefix (audit_log self) (audit_log (snd (search utcnow self q top_k)))"
    by (rule prefix_search)
  show "prefix (audit_log self) (audit_log (snd (generate_answer utcnow self q context_docs)))"
    by (rule prefix_generate_answer)
  show "prefix (audit_log self) (audit_log (snd (query utcnow self q top_k)))"
    by (rule prefix_query)
  show "audit_log (snd (get_audit_log self)) = audit_log self"
    by (simp add: get_audit_log_def)
  show "audit_log (snd (export_audit_log writable self)) = audit_log self"
    by (simp add: export_audit_log_def)
qed

lemma demo_init: "init demo_clock (\<lambda>s. s) (Some (PathExists [(''trip_rules'', Some ''Trip rules'')])) ''u''
     = Inr demo_loaded"
  by code_simp

theorem audit_log_append_only_witness:
  "(\<exists>e. audit_log demo_loaded = [e] \<and> action e = ''SYSTEM_INIT'') \<and>
   prefix (audit_log demo_loaded) (audit_log (snd (query demo_clock demo_loaded ''trip'' 3)))"
  using demo_init audit_log_append_only [of demo_clock "\<lambda>s. s"
      "Some (PathExists [(''trip_rules'', Some ''Trip rules'')])" "''u''" demo_loaded
      demo_loaded "''trip''" 3 "[]" True]
  by blast

end
